theory Spec2Isabelle
  imports Main
begin

section \<open>The chat server of warsawjs-workshop-5-chat (lib/ChatServer.js)\<close>

text \<open>
  The server keeps one piece of shared state, the JavaScript \<^verbatim>\<open>Map\<close> named
  \<^verbatim>\<open>_userSockets\<close> (login to \<^verbatim>\<open>Set\<close> of sockets), and one mutable field per
  socket, \<^verbatim>\<open>socket[CLIENT_DATA].login\<close>. Every handler runs to completion on the
  single JavaScript thread, so a handler is a function from the state to the new state
  and the list of effects it performed.

  The authenticator is a constructor argument of the server; what its promises settle
  to is part of the events. The continuation of a promise runs later than the handler
  that created it; here the two are one step, taken when the promise settles, which may
  be after the socket has disconnected. Logins, passwords and
  chat bodies are strings, as the protocol has them; a login may also be \<^verbatim>\<open>null\<close>, and
  an event may come without its argument or a chat without its body.
\<close>

subsection \<open>Values\<close>

text \<open>
  A socket is an object, compared by identity: a number stands for it. A login is
  \<^verbatim>\<open>null\<close> or a string (\<open>None\<close> is \<^verbatim>\<open>null\<close>). JavaScript's \<^verbatim>\<open>!login\<close> holds for
  \<^verbatim>\<open>null\<close> and for the empty string.
\<close>

type_synonym sock = nat
type_synonym login = "string option"

definition truthy :: "login \<Rightarrow> bool" where
  "truthy l = (case l of None \<Rightarrow> False | Some s \<Rightarrow> s \<noteq> [])"

text \<open>The error object of a rejected promise, as the handlers copy it into a reply.\<close>

record error_info =
  name :: string
  code :: string
  message :: string

text \<open>
  The argument of an inbound event. The handlers destructure it in their parameter
  list (\<^verbatim>\<open>function({ body })\<close>, \<^verbatim>\<open>function({ login, password })\<close>), which throws a
  TypeError when the client sent no argument; the \<open>body\<close> of a chat may be missing
  from the object (\<open>None\<close> is \<^verbatim>\<open>undefined\<close>).
\<close>

datatype chat_payload = ChatUndefined | ChatObj "string option"

datatype cred_payload = CredUndefined | CredObj login string

datatype exn = TypeError

subsection \<open>Effects\<close>

text \<open>What a socket is sent: the event type together with its message.\<close>

datatype out_msg =
    ChatOut login "string option"
  | JoinOut login
  | LeaveOut login
  | AuthOk login
  | AuthFail error_info
  | RegisterOk login
  | RegisterFail error_info

datatype log_entry =
    MessageUnauthenticated nat
  | MessageDebug login "string option"

text \<open>
  \<open>Emit s m\<close> is a direct \<^verbatim>\<open>socket.emit\<close> in a handler; \<open>Broadcast m rs\<close> is one call
  of \<^verbatim>\<open>_broadcastMessage\<close>, with the sockets it called \<^verbatim>\<open>emit\<close> on, in order.
\<close>

datatype action =
    Emit sock out_msg
  | Broadcast out_msg "sock list"
  | Log log_entry

subsection \<open>The Map and Set of JavaScript, in insertion order\<close>

fun Map_get :: "('k \<times> 'v) list \<Rightarrow> 'k \<Rightarrow> 'v option" where
  "Map_get [] k = None"
| "Map_get ((k', v) # m) k = (if k' = k then Some v else Map_get m k)"

fun Map_set :: "'k \<Rightarrow> 'v \<Rightarrow> ('k \<times> 'v) list \<Rightarrow> ('k \<times> 'v) list" where
  "Map_set k v [] = [(k, v)]"
| "Map_set k v ((k', v') # m) = (if k' = k then (k, v) # m else (k', v') # Map_set k v m)"

fun Map_delete :: "'k \<Rightarrow> ('k \<times> 'v) list \<Rightarrow> ('k \<times> 'v) list" where
  "Map_delete k [] = []"
| "Map_delete k ((k', v') # m) = (if k' = k then Map_delete k m else (k', v') # Map_delete k m)"

definition Set_add :: "'a \<Rightarrow> 'a list \<Rightarrow> 'a list" where
  "Set_add x xs = (if x \<in> set xs then xs else xs @ [x])"

definition Set_delete :: "'a \<Rightarrow> 'a list \<Rightarrow> 'a list" where
  "Set_delete x xs = removeAll x xs"

subsection \<open>The server state\<close>

record state =
  userSockets :: "(login \<times> sock list) list"
  clientData :: "sock \<Rightarrow> login"

definition init :: state where
  "init = \<lparr>userSockets = [], clientData = (\<lambda>_. None)\<rparr>"

text \<open>\<^verbatim>\<open>this._userSockets.get(login) || new Set()\<close>: a Set object is never falsy.\<close>

definition getOrNew :: "state \<Rightarrow> login \<Rightarrow> sock list" where
  "getOrNew st l = (case Map_get (userSockets st) l of None \<Rightarrow> [] | Some S \<Rightarrow> S)"

definition unregisterSocket :: "state \<Rightarrow> sock \<Rightarrow> state" where
  "unregisterSocket st socket =
     (let l = clientData st socket in
      if \<not> truthy l then st
      else
        let loginSockets = Set_delete socket (getOrNew st l) in
        if length loginSockets > 0
        then st\<lparr>userSockets := Map_set l loginSockets (userSockets st)\<rparr>
        else st\<lparr>userSockets := Map_delete l (userSockets st)\<rparr>)"

definition registerSocket :: "state \<Rightarrow> sock \<Rightarrow> state" where
  "registerSocket st socket =
     (let l = clientData st socket;
          loginSockets = Set_add socket (getOrNew st l)
      in st\<lparr>userSockets := Map_set l loginSockets (userSockets st)\<rparr>)"

text \<open>
  None of the messages the server builds has a \<^verbatim>\<open>senderSocket\<close> property, so the
  guard clause of \<^verbatim>\<open>_broadcastMessage\<close> compares each recipient with \<^verbatim>\<open>undefined\<close>.
\<close>

definition senderSocket :: "out_msg \<Rightarrow> sock option" where
  "senderSocket m = None"

definition allSockets :: "sock \<Rightarrow> bool" where
  "allSockets recipientSocket = True"

definition broadcastMessage :: "state \<Rightarrow> out_msg \<Rightarrow> (sock \<Rightarrow> bool) \<Rightarrow> action" where
  "broadcastMessage st m socketFilter =
     Broadcast m
       (concat (map (\<lambda>(l, sockets).
          filter (\<lambda>recipientSocket. Some recipientSocket \<noteq> senderSocket m)
            (filter socketFilter sockets)) (userSockets st)))"

definition notifyUserJoin :: "state \<Rightarrow> login \<Rightarrow> action" where
  "notifyUserJoin st l = broadcastMessage st (JoinOut l) (\<lambda>socket. clientData st socket \<noteq> l)"

definition notifyUserLeave :: "state \<Rightarrow> login \<Rightarrow> action" where
  "notifyUserLeave st l = broadcastMessage st (LeaveOut l) (\<lambda>socket. clientData st socket \<noteq> l)"

definition authorizeSocket :: "state \<Rightarrow> login \<Rightarrow> sock \<Rightarrow> state \<times> action list" where
  "authorizeSocket st l socket =
     (let previousLogin = clientData st socket;
          currentLoginHadSocketsBefore = (Map_get (userSockets st) l \<noteq> None);
          st1 = unregisterSocket st socket;
          st2 = st1\<lparr>clientData := (clientData st1)(socket := l)\<rparr>;
          st3 = registerSocket st2 socket;
          leave = (if truthy previousLogin \<and> previousLogin \<noteq> l
                      \<and> Map_get (userSockets st3) previousLogin = None
                   then [notifyUserLeave st3 previousLogin] else []);
          join = (if \<not> currentLoginHadSocketsBefore
                  then [notifyUserJoin st3 (clientData st3 socket)] else [])
      in (st3, leave @ join))"

subsection \<open>The handlers installed on each connection\<close>

text \<open>
  A handler's outcome: the state it leaves, the effects it performed, and the
  exception it threw, if any. No handler has a \<^verbatim>\<open>try\<close>, so a thrown exception
  leaves the handler.
\<close>

record outcome =
  state_after :: state
  actions :: "action list"
  thrown :: "exn option"

definition returns :: "state \<Rightarrow> action list \<Rightarrow> outcome" where
  "returns st acts = \<lparr>state_after = st, actions = acts, thrown = None\<rparr>"

definition throws :: "state \<Rightarrow> exn \<Rightarrow> outcome" where
  "throws st e = \<lparr>state_after = st, actions = [], thrown = Some e\<rparr>"

definition on_connection :: "state \<Rightarrow> sock \<Rightarrow> outcome" where
  "on_connection st socket = returns (st\<lparr>clientData := (clientData st)(socket := None)\<rparr>) []"

definition on_chat :: "state \<Rightarrow> sock \<Rightarrow> chat_payload \<Rightarrow> outcome" where
  "on_chat st socket payload =
     (case payload of
        ChatUndefined \<Rightarrow> throws st TypeError
      | ChatObj body \<Rightarrow>
          if \<not> truthy (clientData st socket) then
            (case body of
               None \<Rightarrow> throws st TypeError
             | Some b \<Rightarrow> returns st [Log (MessageUnauthenticated (length b))])
          else
            returns st
              [Log (MessageDebug (clientData st socket) body),
               broadcastMessage st (ChatOut (clientData st socket) body)
                 (\<lambda>recipientSocket. recipientSocket \<noteq> socket)])"

text \<open>
  The authenticator is injected into the server. A handler calls one of its methods,
  \<^verbatim>\<open>authenticator.authenticate(login, password)\<close> or
  \<^verbatim>\<open>authenticator.register(login, password)\<close>, and chains \<^verbatim>\<open>.then\<close> on the promise
  returned. The event carries what that call does: the promise is fulfilled, it is
  rejected with an error, or the call itself throws, as it does with a TypeError when the
  authenticator has no such method. The handler and the continuation of the promise are
  taken as one step.
\<close>

datatype settlement = Fulfilled | Rejected error_info | Throws exn

definition on_auth :: "state \<Rightarrow> sock \<Rightarrow> cred_payload \<Rightarrow> settlement \<Rightarrow> outcome" where
  "on_auth st socket payload settled =
     (case payload of
        CredUndefined \<Rightarrow> throws st TypeError
      | CredObj l password \<Rightarrow>
          (case settled of
             Throws x \<Rightarrow> throws st x
           | Fulfilled \<Rightarrow>
               (let (st', acts) = authorizeSocket st l socket
                in returns st' (Emit socket (AuthOk l) # acts))
           | Rejected e \<Rightarrow>
               returns st
                 [Emit socket (AuthFail \<lparr>name = name e, code = code e, message = message e\<rparr>)]))"

definition on_register :: "state \<Rightarrow> sock \<Rightarrow> cred_payload \<Rightarrow> settlement \<Rightarrow> outcome" where
  "on_register st socket payload settled =
     (case payload of
        CredUndefined \<Rightarrow> throws st TypeError
      | CredObj l password \<Rightarrow>
          (case settled of
             Throws x \<Rightarrow> throws st x
           | Fulfilled \<Rightarrow> returns st [Emit socket (RegisterOk l)]
           | Rejected e \<Rightarrow>
               returns st
                 [Emit socket (RegisterFail \<lparr>name = name e, code = code e, message = message e\<rparr>)]))"

definition on_disconnect :: "state \<Rightarrow> sock \<Rightarrow> outcome" where
  "on_disconnect st socket =
     (let st1 = unregisterSocket st socket in
      if truthy (clientData st1 socket) \<and> Map_get (userSockets st1) (clientData st1 socket) = None
      then returns st1 [notifyUserLeave st1 (clientData st1 socket)]
      else returns st1 [])"

datatype event =
    Connection sock
  | Chat sock chat_payload
  | Auth sock cred_payload settlement
  | Register sock cred_payload settlement
  | Disconnect sock

fun step :: "state \<Rightarrow> event \<Rightarrow> outcome" where
  "step st (Connection s) = on_connection st s"
| "step st (Chat s p) = on_chat st s p"
| "step st (Auth s p r) = on_auth st s p r"
| "step st (Register s p r) = on_register st s p r"
| "step st (Disconnect s) = on_disconnect st s"

subsection \<open>The transport and the runs of the server\<close>

text \<open>
  socket.io creates a socket object per connection, fires \<^verbatim>\<open>connection\<close> for it
  once, delivers the socket's events, and fires \<^verbatim>\<open>disconnect\<close> once, after which the
  socket delivers nothing. The promise of an \<^verbatim>\<open>auth\<close> or \<^verbatim>\<open>register\<close> that arrived
  before may still settle after the disconnect, and its continuation then runs for the
  closed socket: an \<open>Auth\<close> or \<open>Register\<close> step is possible for every socket that was
  opened. The transport's view is kept beside the server's state: the sockets opened so
  far and those closed.
\<close>

record config =
  server :: state
  opened :: "sock set"
  closed :: "sock set"

definition init_config :: config where
  "init_config = \<lparr>server = init, opened = {}, closed = {}\<rparr>"

definition live :: "config \<Rightarrow> sock \<Rightarrow> bool" where
  "live c s = (s \<in> opened c \<and> s \<notin> closed c)"

fun admissible :: "config \<Rightarrow> event \<Rightarrow> bool" where
  "admissible c (Connection s) = (s \<notin> opened c)"
| "admissible c (Chat s p) = live c s"
| "admissible c (Auth s p r) = (s \<in> opened c)"
| "admissible c (Register s p r) = (s \<in> opened c)"
| "admissible c (Disconnect s) = live c s"

text \<open>The events whose promise, if they have one, settles while the socket is still live.\<close>

fun in_time :: "config \<Rightarrow> event \<Rightarrow> bool" where
  "in_time c (Auth s p r) = live c s"
| "in_time c (Register s p r) = live c s"
| "in_time c ev = True"

fun transport_after :: "config \<Rightarrow> event \<Rightarrow> config" where
  "transport_after c (Connection s) = c\<lparr>opened := insert s (opened c)\<rparr>"
| "transport_after c (Disconnect s) = c\<lparr>closed := insert s (closed c)\<rparr>"
| "transport_after c _ = c"

definition next_config :: "config \<Rightarrow> event \<Rightarrow> config" where
  "next_config c ev = (transport_after c ev)\<lparr>server := state_after (step (server c) ev)\<rparr>"

text \<open>A run is the events the transport can deliver, in order; \<open>None\<close> when it cannot.\<close>

fun run :: "config \<Rightarrow> event list \<Rightarrow> config option" where
  "run c [] = Some c"
| "run c (ev # evs) = (if admissible c ev then run (next_config c ev) evs else None)"

subsection \<open>Observations\<close>

text \<open>A socket receives a message through a direct emit or as a broadcast's recipient.\<close>

fun receives :: "sock \<Rightarrow> out_msg \<Rightarrow> action \<Rightarrow> bool" where
  "receives s m (Emit t m') = (t = s \<and> m' = m)"
| "receives s m (Broadcast m' rs) = (m' = m \<and> s \<in> set rs)"
| "receives s m (Log e) = False"

definition delivered :: "action list \<Rightarrow> sock \<Rightarrow> out_msg \<Rightarrow> bool" where
  "delivered acts s m = list_ex (receives s m) acts"

fun is_broadcast_of :: "out_msg \<Rightarrow> action \<Rightarrow> bool" where
  "is_broadcast_of m (Broadcast m' rs) = (m' = m)"
| "is_broadcast_of m _ = False"

definition broadcasts :: "action list \<Rightarrow> out_msg \<Rightarrow> nat" where
  "broadcasts acts m = length (filter (is_broadcast_of m) acts)"

text \<open>The connection set of a login, and the sockets registered under any login.\<close>

definition sockets_of :: "state \<Rightarrow> login \<Rightarrow> sock set" where
  "sockets_of st l = set (getOrNew st l)"

text \<open>The live connections whose login is \<open>l\<close>.\<close>

definition connections_of :: "config \<Rightarrow> login \<Rightarrow> sock set" where
  "connections_of c l =
     Set.filter (\<lambda>s. s \<notin> closed c \<and> clientData (server c) s = l) (opened c)"

definition registered :: "state \<Rightarrow> sock \<Rightarrow> bool" where
  "registered st s = list_ex (\<lambda>(l, sockets). s \<in> set sockets) (userSockets st)"

definition logins_of :: "state \<Rightarrow> sock \<Rightarrow> login list" where
  "logins_of st s = map fst (filter (\<lambda>(l, sockets). s \<in> set sockets) (userSockets st))"

subsection \<open>Runs without the admissibility check\<close>

text \<open>The configuration after a list of events; it is the run's when the run exists.\<close>

fun exec :: "config \<Rightarrow> event list \<Rightarrow> config" where
  "exec c [] = c"
| "exec c (ev # evs) = exec (next_config c ev) evs"

subsection \<open>Invariants of the runs\<close>

text \<open>No login is mapped to an empty set.\<close>

definition sets_nonempty :: "state \<Rightarrow> bool" where
  "sets_nonempty st = (\<forall>l S. Map_get (userSockets st) l = Some S \<longrightarrow> S \<noteq> [])"

text \<open>A live socket whose login is a string is in that login's set.\<close>

definition bound_registered :: "config \<Rightarrow> bool" where
  "bound_registered c =
     (\<forall>s L. live c s \<and> clientData (server c) s = Some L \<longrightarrow> s \<in> sockets_of (server c) (Some L))"

definition consistent :: "config \<Rightarrow> bool" where
  "consistent c = (sets_nonempty (server c) \<and> bound_registered c)"

text \<open>The state \<^verbatim>\<open>_authorizeSocket\<close> leaves: unregister, assign the login, register.\<close>

definition authorized :: "state \<Rightarrow> login \<Rightarrow> sock \<Rightarrow> state" where
  "authorized st l s = registerSocket ((unregisterSocket st s)\<lparr>clientData := (clientData st)(s := l)\<rparr>) s"

subsection \<open>LevelAuthenticator (lib/authenticators/LevelAuthenticator.js)\<close>














subsection \<open>Notions used to state the properties\<close>

text \<open>The registry as a mapping from logins to sets, without the insertion order.\<close>

definition registry :: "state \<Rightarrow> login \<Rightarrow> sock set option" where
  "registry st l = map_option set (Map_get (userSockets st) l)"

text \<open>The replies to \<^verbatim>\<open>auth\<close> and \<^verbatim>\<open>register\<close>.\<close>

fun is_result :: "out_msg \<Rightarrow> bool" where
  "is_result (AuthOk l) = True"
| "is_result (AuthFail e) = True"
| "is_result (RegisterOk l) = True"
| "is_result (RegisterFail e) = True"
| "is_result _ = False"

text \<open>The connection an event comes from.\<close>

fun origin :: "event \<Rightarrow> sock" where
  "origin (Connection s) = s"
| "origin (Chat s p) = s"
| "origin (Auth s p r) = s"
| "origin (Register s p r) = s"
| "origin (Disconnect s) = s"

text \<open>
  The events whose argument the handler cannot read: no argument at all, or a chat
  without \<open>body\<close> from a socket whose login is falsy (the handler then evaluates
  \<^verbatim>\<open>body.length\<close>).
\<close>

fun malformed :: "state \<Rightarrow> event \<Rightarrow> bool" where
  "malformed st (Chat s ChatUndefined) = True"
| "malformed st (Chat s (ChatObj None)) = (\<not> truthy (clientData st s))"
| "malformed st (Auth s CredUndefined r) = True"
| "malformed st (Register s CredUndefined r) = True"
| "malformed st _ = False"

text \<open>
  The events in which the handler reads its argument and the call of the authenticator's
  method then throws, with the exception thrown.
\<close>

fun call_throws :: "event \<Rightarrow> exn option" where
  "call_throws (Auth s (CredObj l pw) (Throws x)) = Some x"
| "call_throws (Register s (CredObj l pw) (Throws x)) = Some x"
| "call_throws ev = None"

text \<open>
  DummyAuthenticator (lib/authenticators/DummyAuthenticator.js): \<^verbatim>\<open>authenticate\<close> logs
  and returns \<^verbatim>\<open>when.resolve()\<close>; the class has no \<^verbatim>\<open>register\<close>, so the call
  \<^verbatim>\<open>authenticator.register(login, password)\<close> throws a TypeError.
\<close>

definition DummyAuthenticator_authenticate :: "login \<Rightarrow> string \<Rightarrow> settlement" where
  "DummyAuthenticator_authenticate l password = Fulfilled"

definition DummyAuthenticator_register :: "login \<Rightarrow> string \<Rightarrow> settlement" where
  "DummyAuthenticator_register l password = Throws TypeError"

text \<open>
  Every socket in a login's set has that login, the login is truthy, and the socket
  was opened; it holds of the runs in which every login that is authenticated is truthy.
\<close>

definition keyed_by_login :: "config \<Rightarrow> bool" where
  "keyed_by_login c =
     (\<forall>k t. t \<in> sockets_of (server c) k \<longrightarrow>
        clientData (server c) t = k \<and> truthy k \<and> t \<in> opened c)"

text \<open>The events that do not authenticate a falsy login, and the lists of such events.\<close>

fun login_truthy :: "event \<Rightarrow> bool" where
  "login_truthy (Auth s (CredObj l pw) Fulfilled) = truthy l"
| "login_truthy ev = True"

definition truthy_logins :: "event list \<Rightarrow> bool" where
  "truthy_logins evs = list_all login_truthy evs"

text \<open>
  The registry holds, under each truthy login, exactly the live connections with that
  login, and nothing under a falsy one. It holds of the runs in which every promise
  settles while its socket is live and every login that is authenticated is truthy.
\<close>

definition mirrors_live :: "config \<Rightarrow> bool" where
  "mirrors_live c =
     (\<forall>k s. s \<in> sockets_of (server c) k \<longleftrightarrow>
        truthy k \<and> live c s \<and> clientData (server c) s = k)"

text \<open>The lists of events that settle in time and authenticate truthy logins only.\<close>

fun orderly :: "config \<Rightarrow> event list \<Rightarrow> bool" where
  "orderly c [] = True"
| "orderly c (ev # evs) = (in_time c ev \<and> login_truthy ev \<and> orderly (next_config c ev) evs)"

text \<open>Concrete logins and events for the examples.\<close>

abbreviation amy :: login where "amy \<equiv> Some ''amy''"
abbreviation bob :: login where "bob \<equiv> Some ''bob''"
abbreviation carol :: login where "carol \<equiv> Some ''carol''"
abbreviation empty_login :: login where "empty_login \<equiv> Some []"

abbreviation auth_ok :: "sock \<Rightarrow> login \<Rightarrow> event" where
  "auth_ok s l \<equiv> Auth s (CredObj l ''secret'') Fulfilled"

abbreviation says :: "sock \<Rightarrow> string \<Rightarrow> event" where
  "says s b \<equiv> Chat s (ChatObj (Some b))"

section \<open>Properties\<close>

subsection \<open>Map and Set\<close>

lemma Map_get_set: "Map_get (Map_set k v m) k' = (if k' = k then Some v else Map_get m k')"
  by (induction m) auto

lemma Map_get_delete: "Map_get (Map_delete k m) k' = (if k' = k then None else Map_get m k')"
  by (induction m) auto

lemma Map_get_entry: "Map_get m k = Some v \<Longrightarrow> (k, v) \<in> set m"
  by (induction m) (auto split: if_splits)

lemma Set_delete_empty: "Set_delete s xs = [] \<longleftrightarrow> set xs \<subseteq> {s}"
  unfolding Set_delete_def by (metis set_empty set_removeAll Diff_eq_empty_iff)

lemma set_Set_delete: "set (Set_delete s xs) = set xs - {s}"
  by (simp add: Set_delete_def)

lemma set_Set_add: "set (Set_add s xs) = insert s (set xs)"
  by (auto simp: Set_add_def)

lemma Set_add_nonempty: "Set_add s xs \<noteq> []"
  by (auto simp: Set_add_def)

lemma clientData_unregisterSocket: "clientData (unregisterSocket st s) = clientData st"
  by (simp add: unregisterSocket_def Let_def)

lemma clientData_registerSocket: "clientData (registerSocket st s) = clientData st"
  by (simp add: registerSocket_def Let_def)

lemma get_unregisterSocket:
  "Map_get (userSockets (unregisterSocket st s)) k =
     (if truthy (clientData st s) \<and> k = clientData st s
      then (if Set_delete s (getOrNew st k) = [] then None else Some (Set_delete s (getOrNew st k)))
      else Map_get (userSockets st) k)"
  by (simp add: unregisterSocket_def Let_def Map_get_set Map_get_delete)

lemma get_registerSocket:
  "Map_get (userSockets (registerSocket st s)) k =
     (if k = clientData st s then Some (Set_add s (getOrNew st k)) else Map_get (userSockets st) k)"
  by (simp add: registerSocket_def Let_def Map_get_set)

lemma getOrNew_unregisterSocket:
  "getOrNew (unregisterSocket st s) k =
     (if truthy (clientData st s) \<and> k = clientData st s
      then Set_delete s (getOrNew st k) else getOrNew st k)"
  by (simp add: getOrNew_def get_unregisterSocket)

lemma getOrNew_registerSocket:
  "getOrNew (registerSocket st s) k =
     (if k = clientData st s then Set_add s (getOrNew st k) else getOrNew st k)"
  by (simp add: getOrNew_def get_registerSocket)

lemma getOrNew_clientData_update [simp]:
  "getOrNew (st\<lparr>clientData := f\<rparr>) k = getOrNew st k"
  by (simp add: getOrNew_def)

lemma sockets_of_unregisterSocket:
  "sockets_of (unregisterSocket st s) k =
     (if truthy (clientData st s) \<and> k = clientData st s then sockets_of st k - {s} else sockets_of st k)"
  by (simp add: sockets_of_def getOrNew_unregisterSocket set_Set_delete)

lemma sockets_of_registerSocket:
  "sockets_of (registerSocket st s) k =
     (if k = clientData st s then insert s (sockets_of st k) else sockets_of st k)"
  by (simp add: sockets_of_def getOrNew_registerSocket set_Set_add)

lemma sockets_of_clientData_update [simp]:
  "sockets_of (st\<lparr>clientData := f\<rparr>) k = sockets_of st k"
  by (simp add: sockets_of_def)

lemma sets_nonempty_sockets_of:
  "sets_nonempty st \<Longrightarrow> (Map_get (userSockets st) k = None) = (sockets_of st k = {})"
proof (cases "Map_get (userSockets st) k")
  case None
  then show ?thesis by (simp add: sockets_of_def getOrNew_def)
next
  case (Some S)
  assume "sets_nonempty st"
  with Some have "S \<noteq> []" by (simp add: sets_nonempty_def)
  with Some show ?thesis by (simp add: sockets_of_def getOrNew_def)
qed

lemma sets_nonempty_unregisterSocket:
  "sets_nonempty st \<Longrightarrow> sets_nonempty (unregisterSocket st s)"
  by (auto simp: sets_nonempty_def get_unregisterSocket split: if_splits)

lemma sets_nonempty_registerSocket:
  "sets_nonempty st \<Longrightarrow> sets_nonempty (registerSocket st s)"
  by (auto simp: sets_nonempty_def get_registerSocket Set_add_nonempty split: if_splits)

lemma sets_nonempty_clientData_update [simp]:
  "sets_nonempty (st\<lparr>clientData := f\<rparr>) = sets_nonempty st"
  by (simp add: sets_nonempty_def)

subsection \<open>authorizeSocket\<close>

lemma fst_authorizeSocket: "fst (authorizeSocket st l s) = authorized st l s"
  by (simp add: authorizeSocket_def authorized_def Let_def clientData_unregisterSocket)

lemma clientData_authorized: "clientData (authorized st l s) = (clientData st)(s := l)"
  by (simp add: authorized_def clientData_registerSocket)

lemma sockets_of_authorized:
  "sockets_of (authorized st l s) k =
     (if k = l then insert s (sockets_of st k)
      else if truthy (clientData st s) \<and> k = clientData st s then sockets_of st k - {s}
      else sockets_of st k)"
  by (auto simp: authorized_def sockets_of_registerSocket sockets_of_unregisterSocket)

lemma sets_nonempty_authorized: "sets_nonempty st \<Longrightarrow> sets_nonempty (authorized st l s)"
  by (simp add: authorized_def sets_nonempty_registerSocket sets_nonempty_unregisterSocket)

lemma snd_authorizeSocket:
  "snd (authorizeSocket st l s) =
     (if truthy (clientData st s) \<and> clientData st s \<noteq> l
         \<and> Map_get (userSockets (authorized st l s)) (clientData st s) = None
      then [notifyUserLeave (authorized st l s) (clientData st s)] else []) @
     (if Map_get (userSockets st) l = None then [notifyUserJoin (authorized st l s) l] else [])"
  by (simp add: authorizeSocket_def authorized_def Let_def clientData_unregisterSocket
      clientData_registerSocket)

subsection \<open>Counting broadcasts\<close>

lemma broadcasts_simps [simp]:
  "broadcasts [] m = 0"
  "broadcasts (Emit t m' # acts) m = broadcasts acts m"
  "broadcasts (Log e # acts) m = broadcasts acts m"
  "broadcasts (Broadcast m' rs # acts) m = (if m' = m then 1 else 0) + broadcasts acts m"
  "broadcasts (xs @ ys) m = broadcasts xs m + broadcasts ys m"
  by (simp_all add: broadcasts_def)

lemma broadcasts_notify [simp]:
  "broadcasts [notifyUserJoin st l] m = (if m = JoinOut l then 1 else 0)"
  "broadcasts [notifyUserLeave st l] m = (if m = LeaveOut l then 1 else 0)"
  by (auto simp: notifyUserJoin_def notifyUserLeave_def broadcastMessage_def)

subsection \<open>The handlers and the invariant of the runs\<close>

lemma inv_init: "consistent init_config"
  by (simp add: consistent_def init_config_def init_def sets_nonempty_def bound_registered_def)

lemma state_after_returns [simp]: "state_after (returns st acts) = st"
  and actions_returns [simp]: "actions (returns st acts) = acts"
  and thrown_returns [simp]: "thrown (returns st acts) = None"
  and state_after_throws [simp]: "state_after (throws st e) = st"
  and actions_throws [simp]: "actions (throws st e) = []"
  and thrown_throws [simp]: "thrown (throws st e) = Some e"
  by (simp_all add: returns_def throws_def)

lemma state_after_on_chat: "state_after (on_chat st s p) = st"
  by (simp add: on_chat_def split: chat_payload.splits option.splits)

lemma state_after_on_register: "state_after (on_register st s p r) = st"
  by (simp add: on_register_def split: cred_payload.splits settlement.splits)

lemma state_after_on_auth:
  "state_after (on_auth st s p r) =
     (case p of CredUndefined \<Rightarrow> st
      | CredObj l pw \<Rightarrow> (case r of Fulfilled \<Rightarrow> authorized st l s | Rejected e \<Rightarrow> st | Throws x \<Rightarrow> st))"
  by (simp add: on_auth_def fst_authorizeSocket [symmetric] split_beta
      split: cred_payload.splits settlement.splits)

lemma actions_on_auth:
  "actions (on_auth st s p r) =
     (case p of CredUndefined \<Rightarrow> []
      | CredObj l pw \<Rightarrow>
          (case r of Fulfilled \<Rightarrow> Emit s (AuthOk l) # snd (authorizeSocket st l s)
           | Rejected e \<Rightarrow> [Emit s (AuthFail \<lparr>name = name e, code = code e, message = message e\<rparr>)]
           | Throws x \<Rightarrow> []))"
  by (simp add: on_auth_def split_beta split: cred_payload.splits settlement.splits)

lemma state_after_on_disconnect: "state_after (on_disconnect st s) = unregisterSocket st s"
  by (simp add: on_disconnect_def Let_def)

lemma actions_on_disconnect:
  "actions (on_disconnect st s) =
     (if truthy (clientData st s) \<and> Map_get (userSockets (unregisterSocket st s)) (clientData st s) = None
      then [notifyUserLeave (unregisterSocket st s) (clientData st s)] else [])"
  by (simp add: on_disconnect_def Let_def clientData_unregisterSocket)

lemma state_after_on_connection:
  "state_after (on_connection st s) = st\<lparr>clientData := (clientData st)(s := None)\<rparr>"
  by (simp add: on_connection_def)

lemma inv_next_config:
  assumes "consistent c" and "admissible c ev"
  shows "consistent (next_config c ev)"
proof (cases ev)
  case (Connection s)
  with assms show ?thesis
    by (auto simp: consistent_def next_config_def state_after_on_connection bound_registered_def live_def)
next
  case (Chat s p)
  with assms show ?thesis
    by (simp add: consistent_def next_config_def state_after_on_chat bound_registered_def live_def)
next
  case (Register s p r)
  with assms show ?thesis
    by (simp add: consistent_def next_config_def state_after_on_register bound_registered_def live_def)
next
  case (Disconnect s)
  have "bound_registered (next_config c ev)"
    unfolding bound_registered_def
  proof (intro allI impI)
    fix t L
    assume h: "live (next_config c ev) t \<and> clientData (server (next_config c ev)) t = Some L"
    then have "t \<noteq> s" and "live c t" and "clientData (server c) t = Some L"
      using Disconnect
      by (auto simp: next_config_def live_def state_after_on_disconnect clientData_unregisterSocket)
    then have "t \<in> sockets_of (server c) (Some L)"
      using assms(1) by (simp add: consistent_def bound_registered_def)
    with \<open>t \<noteq> s\<close> show "t \<in> sockets_of (server (next_config c ev)) (Some L)"
      using Disconnect
      by (auto simp: next_config_def state_after_on_disconnect sockets_of_unregisterSocket)
  qed
  with assms Disconnect show ?thesis
    by (simp add: consistent_def next_config_def state_after_on_disconnect
        sets_nonempty_unregisterSocket)
next
  case (Auth s p r)
  show ?thesis
  proof (cases "\<exists>l pw. p = CredObj l pw \<and> r = Fulfilled")
    case False
    then have "state_after (step (server c) ev) = server c"
      using Auth by (auto simp: state_after_on_auth split: cred_payload.splits settlement.splits)
    with assms Auth show ?thesis
      by (simp add: consistent_def next_config_def bound_registered_def live_def)
  next
    case True
    then obtain l pw where p: "p = CredObj l pw" "r = Fulfilled" by blast
    have st: "state_after (step (server c) ev) = authorized (server c) l s"
      using Auth p by (simp add: state_after_on_auth)
    have srv: "server (next_config c ev) = authorized (server c) l s"
      by (simp add: next_config_def st)
    have lv: "live (next_config c ev) = live c"
      using Auth by (simp add: next_config_def live_def fun_eq_iff)
    have "sets_nonempty (authorized (server c) l s)"
      using assms(1) by (simp add: consistent_def sets_nonempty_authorized)
    moreover have "bound_registered (next_config c ev)"
      unfolding bound_registered_def
    proof (intro allI impI)
      fix t L
      assume "live (next_config c ev) t \<and> clientData (server (next_config c ev)) t = Some L"
      then have t: "live c t" "((clientData (server c))(s := l)) t = Some L"
        by (simp_all add: srv lv clientData_authorized)
      have "t \<in> sockets_of (authorized (server c) l s) (Some L)"
      proof (cases "t = s")
        case True
        with t show ?thesis by (simp add: sockets_of_authorized)
      next
        case False
        with t have "t \<in> sockets_of (server c) (Some L)"
          using assms(1) by (simp add: consistent_def bound_registered_def)
        with False show ?thesis by (auto simp: sockets_of_authorized)
      qed
      then show "t \<in> sockets_of (server (next_config c ev)) (Some L)"
        by (simp add: srv)
    qed
    ultimately show ?thesis
      by (simp add: consistent_def srv)
  qed
qed

lemma inv_run: "consistent c \<Longrightarrow> run c evs = Some c' \<Longrightarrow> consistent c'"
proof (induction evs arbitrary: c)
  case Nil
  then show ?case by simp
next
  case (Cons ev evs)
  from Cons.prems have "admissible c ev" and "run (next_config c ev) evs = Some c'"
    by (auto split: if_splits)
  with Cons.IH [of "next_config c ev"] Cons.prems(1) show ?case
    by (simp add: inv_next_config)
qed

lemma inv_reachable: "run init_config evs = Some c \<Longrightarrow> consistent c"
  using inv_init inv_run by blast

lemma truthy_Some: "truthy l \<Longrightarrow> \<exists>L. l = Some L"
  by (cases l) (simp_all add: truthy_def)

lemma live_bound_in_set:
  assumes "consistent c" and "live c s" and "truthy (clientData (server c) s)"
  shows "s \<in> sockets_of (server c) (clientData (server c) s)"
proof -
  from assms(3) obtain L where "clientData (server c) s = Some L"
    using truthy_Some by blast
  with assms(1,2) show ?thesis
    by (simp add: consistent_def bound_registered_def)
qed

subsection \<open>Presence broadcasts and transitions of a set\<close>

lemma broadcasts_on_chat:
  "broadcasts (actions (on_chat st s p)) (JoinOut L) = 0"
  "broadcasts (actions (on_chat st s p)) (LeaveOut L) = 0"
  by (simp_all add: on_chat_def broadcastMessage_def split: chat_payload.splits option.splits)

lemma broadcasts_on_register:
  "broadcasts (actions (on_register st s p r)) m = 0"
  by (simp add: on_register_def split: cred_payload.splits settlement.splits)

lemma broadcasts_on_connection:
  "broadcasts (actions (on_connection st s)) m = 0"
  by (simp add: on_connection_def)

lemma authorize_join_count:
  assumes "sets_nonempty st"
  shows "broadcasts (snd (authorizeSocket st l s)) (JoinOut L) =
           (if sockets_of st L = {} \<and> sockets_of (authorized st l s) L \<noteq> {} then 1 else 0)"
proof -
  have "broadcasts (snd (authorizeSocket st l s)) (JoinOut L) =
          (if Map_get (userSockets st) l = None \<and> L = l then 1 else 0)"
    by (auto simp: snd_authorizeSocket)
  moreover have "(Map_get (userSockets st) l = None \<and> L = l) =
          (sockets_of st L = {} \<and> sockets_of (authorized st l s) L \<noteq> {})"
    using sets_nonempty_sockets_of [OF assms, of l]
    by (auto simp: sockets_of_authorized split: if_splits)
  ultimately show ?thesis by simp
qed

lemma authorize_leave_count:
  assumes "sets_nonempty st"
    and "truthy (clientData st s) \<Longrightarrow> s \<in> sockets_of st (clientData st s)"
  shows "broadcasts (snd (authorizeSocket st l s)) (LeaveOut L) =
           (if sockets_of st L \<noteq> {} \<and> sockets_of (authorized st l s) L = {} then 1 else 0)"
proof -
  let ?prev = "clientData st s"
  have ne: "sets_nonempty (authorized st l s)"
    using assms(1) by (rule sets_nonempty_authorized)
  have "broadcasts (snd (authorizeSocket st l s)) (LeaveOut L) =
          (if truthy ?prev \<and> ?prev \<noteq> l
              \<and> Map_get (userSockets (authorized st l s)) ?prev = None \<and> L = ?prev
           then 1 else 0)"
    by (auto simp: snd_authorizeSocket)
  moreover have "(truthy ?prev \<and> ?prev \<noteq> l
              \<and> Map_get (userSockets (authorized st l s)) ?prev = None \<and> L = ?prev) =
          (sockets_of st L \<noteq> {} \<and> sockets_of (authorized st l s) L = {})"
    (is "?lhs = ?rhs")
  proof
    assume ?lhs
    then show ?rhs
      using assms(2) sets_nonempty_sockets_of [OF ne, of ?prev] by auto
  next
    assume r: ?rhs
    then have "L \<noteq> l" by (auto simp: sockets_of_authorized)
    with r have "truthy ?prev \<and> L = ?prev"
      by (auto simp: sockets_of_authorized split: if_splits)
    with r \<open>L \<noteq> l\<close> show ?lhs
      using sets_nonempty_sockets_of [OF ne, of ?prev] by auto
  qed
  ultimately show ?thesis by simp
qed

lemma disconnect_leave_count:
  assumes "sets_nonempty st"
    and "truthy (clientData st s) \<Longrightarrow> s \<in> sockets_of st (clientData st s)"
  shows "broadcasts (actions (on_disconnect st s)) (LeaveOut L) =
           (if sockets_of st L \<noteq> {} \<and> sockets_of (unregisterSocket st s) L = {} then 1 else 0)"
proof -
  let ?prev = "clientData st s"
  have ne: "sets_nonempty (unregisterSocket st s)"
    using assms(1) by (rule sets_nonempty_unregisterSocket)
  have "broadcasts (actions (on_disconnect st s)) (LeaveOut L) =
          (if truthy ?prev \<and> Map_get (userSockets (unregisterSocket st s)) ?prev = None \<and> L = ?prev
           then 1 else 0)"
    by (auto simp: actions_on_disconnect)
  moreover have "(truthy ?prev \<and> Map_get (userSockets (unregisterSocket st s)) ?prev = None \<and> L = ?prev) =
          (sockets_of st L \<noteq> {} \<and> sockets_of (unregisterSocket st s) L = {})"
    (is "?lhs = ?rhs")
  proof
    assume ?lhs
    then show ?rhs
      using assms(2) sets_nonempty_sockets_of [OF ne, of ?prev] by auto
  next
    assume r: ?rhs
    then have "truthy ?prev \<and> L = ?prev"
      by (auto simp: sockets_of_unregisterSocket split: if_splits)
    with r show ?lhs
      using sets_nonempty_sockets_of [OF ne, of ?prev] by auto
  qed
  ultimately show ?thesis by simp
qed

lemma disconnect_join_count:
  "broadcasts (actions (on_disconnect st s)) (JoinOut L) =
     (if sockets_of st L = {} \<and> sockets_of (unregisterSocket st s) L \<noteq> {} then 1 else 0)"
  by (auto simp: actions_on_disconnect sockets_of_unregisterSocket split: if_splits)

lemma presence_counts:
  assumes "run init_config evs = Some c" and "admissible c ev" and "in_time c ev"
  shows "broadcasts (actions (step (server c) ev)) (JoinOut L) =
           (if sockets_of (server c) L = {} \<and> sockets_of (state_after (step (server c) ev)) L \<noteq> {}
            then 1 else 0)
       \<and> broadcasts (actions (step (server c) ev)) (LeaveOut L) =
           (if sockets_of (server c) L \<noteq> {} \<and> sockets_of (state_after (step (server c) ev)) L = {}
            then 1 else 0)"
proof -
  have c: "consistent c" using assms(1) by (rule inv_reachable)
  then have ne: "sets_nonempty (server c)" by (simp add: consistent_def)
  show ?thesis
  proof (cases ev)
    case (Connection s)
    then show ?thesis
      by (simp add: broadcasts_on_connection state_after_on_connection)
  next
    case (Chat s p)
    then show ?thesis
      by (simp add: broadcasts_on_chat state_after_on_chat)
  next
    case (Register s p r)
    then show ?thesis
      by (simp add: broadcasts_on_register state_after_on_register)
  next
    case (Disconnect s)
    then have "live c s" using assms(2) by simp
    then have "truthy (clientData (server c) s) \<Longrightarrow> s \<in> sockets_of (server c) (clientData (server c) s)"
      using c by (simp add: live_bound_in_set)
    then show ?thesis
      using Disconnect ne
      by (simp add: disconnect_leave_count disconnect_join_count state_after_on_disconnect)
  next
    case (Auth s p r)
    then have "live c s" using assms(3) by simp
    then have b: "truthy (clientData (server c) s) \<Longrightarrow> s \<in> sockets_of (server c) (clientData (server c) s)"
      using c by (simp add: live_bound_in_set)
    show ?thesis
    proof (cases p)
      case CredUndefined
      with Auth show ?thesis by (simp add: actions_on_auth state_after_on_auth)
    next
      case (CredObj l pw)
      show ?thesis
      proof (cases r)
        case (Rejected e)
        with Auth CredObj show ?thesis by (simp add: actions_on_auth state_after_on_auth)
      next
        case (Throws x)
        with Auth CredObj show ?thesis by (simp add: actions_on_auth state_after_on_auth)
      next
        case Fulfilled
        with Auth CredObj show ?thesis
          using ne b
          by (simp add: actions_on_auth state_after_on_auth authorize_join_count
              authorize_leave_count)
      qed
    qed
  qed
qed

subsection \<open>Deliveries\<close>

lemma run_exec: "run c evs = Some c' \<Longrightarrow> exec c evs = c'"
  by (induction evs arbitrary: c) (auto split: if_splits)

lemma registered_iff: "registered st s \<longleftrightarrow> (\<exists>l S. (l, S) \<in> set (userSockets st) \<and> s \<in> set S)"
  by (auto simp: registered_def list_ex_iff)

lemma receives_broadcastMessage:
  "receives t m' (broadcastMessage st m f) \<longleftrightarrow> m' = m \<and> registered st t \<and> f t"
  by (auto simp: broadcastMessage_def senderSocket_def registered_iff)

lemma delivered_simps [simp]:
  "delivered [] t m = False"
  "delivered (a # acts) t m = (receives t m a \<or> delivered acts t m)"
  "delivered (xs @ ys) t m = (delivered xs t m \<or> delivered ys t m)"
  by (auto simp: delivered_def list_ex_iff)

lemma in_sockets_of_registered: "s \<in> sockets_of st l \<Longrightarrow> registered st s"
proof -
  assume a: "s \<in> sockets_of st l"
  then obtain S where "Map_get (userSockets st) l = Some S" and "s \<in> set S"
    by (cases "Map_get (userSockets st) l") (auto simp: sockets_of_def getOrNew_def)
  then show ?thesis
    using Map_get_entry registered_iff by fastforce
qed

subsection \<open>Evaluating runs\<close>

lemma opened_next_config:
  "opened (next_config c ev) = (case ev of Connection s \<Rightarrow> insert s (opened c) | _ \<Rightarrow> opened c)"
  by (cases ev) (simp_all add: next_config_def)

lemma closed_next_config:
  "closed (next_config c ev) = (case ev of Disconnect s \<Rightarrow> insert s (closed c) | _ \<Rightarrow> closed c)"
  by (cases ev) (simp_all add: next_config_def)

lemmas run_eval = opened_next_config closed_next_config live_def init_config_def

section \<open>Presence events\<close>

text \<open>
  When every promise settles while its socket is live and only truthy logins are
  authenticated, the registry holds under each login exactly its live connections, and
  the presence events follow the live connections: \<open>join{L}\<close> is broadcast once when an
  event takes the live connections of \<open>L\<close> from none to some and not otherwise,
  \<open>leave{L}\<close> once when it takes them from some to none and not otherwise.
\<close>

lemma in_connections_of:
  "s \<in> connections_of c l \<longleftrightarrow> live c s \<and> clientData (server c) s = l"
  by (auto simp: connections_of_def live_def)

lemma mirrors_live_init: "mirrors_live init_config"
  by (simp add: mirrors_live_def init_config_def init_def sockets_of_def getOrNew_def live_def)

lemma live_next_config:
  "live (next_config c ev) t =
     (case ev of Connection s \<Rightarrow> (t = s \<and> s \<notin> closed c) \<or> live c t
      | Disconnect s \<Rightarrow> t \<noteq> s \<and> live c t
      | _ \<Rightarrow> live c t)"
  by (cases ev) (auto simp: next_config_def live_def)

lemma server_next_config: "server (next_config c ev) = state_after (step (server c) ev)"
  by (simp add: next_config_def)

lemma mirrors_live_unchanged:
  assumes "mirrors_live c" and "state_after (step (server c) ev) = server c"
    and "live (next_config c ev) = live c"
  shows "mirrors_live (next_config c ev)"
  using assms by (simp add: mirrors_live_def server_next_config)

lemma mirrors_live_connection:
  assumes m: "mirrors_live c" and fresh: "s \<notin> opened c"
  shows "mirrors_live (next_config c (Connection s))"
  unfolding mirrors_live_def
proof (intro allI)
  fix k t
  have srv: "server (next_config c (Connection s)) = (server c)\<lparr>clientData := (clientData (server c))(s := None)\<rparr>"
    by (simp add: server_next_config state_after_on_connection)
  have nl: "\<not> live c s" using fresh by (simp add: live_def)
  have old: "t \<in> sockets_of (server c) k \<longleftrightarrow> truthy k \<and> live c t \<and> clientData (server c) t = k"
    using m by (simp add: mirrors_live_def)
  show "t \<in> sockets_of (server (next_config c (Connection s))) k \<longleftrightarrow>
        truthy k \<and> live (next_config c (Connection s)) t
          \<and> clientData (server (next_config c (Connection s))) t = k"
  proof (cases "t = s")
    case True
    with old nl show ?thesis
      by (auto simp: srv live_next_config truthy_def)
  next
    case False
    with old show ?thesis
      by (simp add: srv live_next_config)
  qed
qed

lemma mirrors_live_disconnect:
  assumes m: "mirrors_live c" and l: "live c s"
  shows "mirrors_live (next_config c (Disconnect s))"
  unfolding mirrors_live_def
proof (intro allI)
  fix k t
  have old: "t' \<in> sockets_of (server c) k' \<longleftrightarrow> truthy k' \<and> live c t' \<and> clientData (server c) t' = k'"
    for t' k'
    using m by (simp add: mirrors_live_def)
  have so: "sockets_of (server (next_config c (Disconnect s))) k =
      (if truthy (clientData (server c) s) \<and> k = clientData (server c) s
       then sockets_of (server c) k - {s} else sockets_of (server c) k)"
    by (simp add: server_next_config state_after_on_disconnect sockets_of_unregisterSocket)
  have cd: "clientData (server (next_config c (Disconnect s))) = clientData (server c)"
    by (simp add: server_next_config state_after_on_disconnect clientData_unregisterSocket)
  show "t \<in> sockets_of (server (next_config c (Disconnect s))) k \<longleftrightarrow>
        truthy k \<and> live (next_config c (Disconnect s)) t
          \<and> clientData (server (next_config c (Disconnect s))) t = k"
  proof (cases "t = s")
    case True
    have "s \<notin> sockets_of (server (next_config c (Disconnect s))) k"
    proof
      assume a: "s \<in> sockets_of (server (next_config c (Disconnect s))) k"
      then have "s \<in> sockets_of (server c) k" by (simp add: so split: if_splits)
      then have "truthy k \<and> clientData (server c) s = k" using old by blast
      with a show False by (simp add: so)
    qed
    with True show ?thesis by (simp add: live_next_config)
  next
    case False
    then have "t \<in> sockets_of (server (next_config c (Disconnect s))) k \<longleftrightarrow> t \<in> sockets_of (server c) k"
      by (simp add: so)
    with False old [of t k] show ?thesis
      by (simp add: cd live_next_config)
  qed
qed

lemma mirrors_live_authorized:
  assumes m: "mirrors_live c" and l: "live c s" and t: "truthy l"
  shows "mirrors_live (next_config c (Auth s (CredObj l pw) Fulfilled))"
  unfolding mirrors_live_def
proof (intro allI)
  fix k t
  let ?c' = "next_config c (Auth s (CredObj l pw) Fulfilled)"
  have old: "t' \<in> sockets_of (server c) k' \<longleftrightarrow> truthy k' \<and> live c t' \<and> clientData (server c) t' = k'"
    for t' k'
    using m by (simp add: mirrors_live_def)
  have srv: "server ?c' = authorized (server c) l s"
    by (simp add: server_next_config state_after_on_auth)
  have lv: "live ?c' = live c"
    by (simp add: live_next_config fun_eq_iff)
  show "t \<in> sockets_of (server ?c') k \<longleftrightarrow>
        truthy k \<and> live ?c' t \<and> clientData (server ?c') t = k"
  proof (cases "t = s")
    case True
    show ?thesis
    proof (cases "k = l")
      case True
      with \<open>t = s\<close> l t show ?thesis
        by (simp add: srv lv sockets_of_authorized clientData_authorized)
    next
      case False
      have "s \<notin> sockets_of (authorized (server c) l s) k"
      proof
        assume a: "s \<in> sockets_of (authorized (server c) l s) k"
        with False have "s \<in> sockets_of (server c) k"
          by (simp add: sockets_of_authorized split: if_splits)
        then have "truthy k \<and> clientData (server c) s = k" using old by blast
        with a False show False by (simp add: sockets_of_authorized)
      qed
      with False \<open>t = s\<close> show ?thesis
        by (auto simp: srv lv clientData_authorized)
    qed
  next
    case False
    then have "t \<in> sockets_of (authorized (server c) l s) k \<longleftrightarrow> t \<in> sockets_of (server c) k"
      by (auto simp: sockets_of_authorized)
    with False old [of t k] show ?thesis
      by (simp add: srv lv clientData_authorized)
  qed
qed

lemma mirrors_live_next:
  assumes "mirrors_live c" and "admissible c ev" and "in_time c ev" and "login_truthy ev"
  shows "mirrors_live (next_config c ev)"
proof (cases ev)
  case (Connection s)
  with assms(1,2) show ?thesis by (simp add: mirrors_live_connection)
next
  case (Chat s p)
  with assms(1) show ?thesis
    by (simp add: mirrors_live_unchanged state_after_on_chat live_next_config fun_eq_iff)
next
  case (Register s p r)
  with assms(1) show ?thesis
    by (simp add: mirrors_live_unchanged state_after_on_register live_next_config fun_eq_iff)
next
  case (Disconnect s)
  with assms(1,2) show ?thesis by (simp add: mirrors_live_disconnect)
next
  case (Auth s p r)
  show ?thesis
  proof (cases "\<exists>l pw. p = CredObj l pw \<and> r = Fulfilled")
    case False
    then have "state_after (step (server c) ev) = server c"
      using Auth by (auto simp: state_after_on_auth split: cred_payload.splits settlement.splits)
    with assms(1) Auth show ?thesis
      by (simp add: mirrors_live_unchanged live_next_config fun_eq_iff)
  next
    case True
    then obtain l pw where p: "p = CredObj l pw" "r = Fulfilled" by blast
    with Auth assms(3,4) have "live c s" and "truthy l" by simp_all
    with assms(1) Auth p show ?thesis by (simp add: mirrors_live_authorized)
  qed
qed

lemma mirrors_live_run:
  "mirrors_live c \<Longrightarrow> orderly c evs \<Longrightarrow> run c evs = Some c' \<Longrightarrow> mirrors_live c'"
proof (induction evs arbitrary: c)
  case Nil
  then show ?case by simp
next
  case (Cons ev evs)
  from Cons.prems(2) have o: "in_time c ev" "login_truthy ev" "orderly (next_config c ev) evs"
    by simp_all
  from Cons.prems(3) have a: "admissible c ev" and r: "run (next_config c ev) evs = Some c'"
    by (auto split: if_splits)
  from Cons.prems(1) a o(1,2) have "mirrors_live (next_config c ev)"
    by (rule mirrors_live_next)
  then show ?case using o(3) r by (rule Cons.IH)
qed

lemma mirrors_live_sockets_of:
  assumes "mirrors_live c" and "truthy L"
  shows "sockets_of (server c) L = connections_of c L"
proof (rule set_eqI)
  fix s
  show "s \<in> sockets_of (server c) L \<longleftrightarrow> s \<in> connections_of c L"
    using assms by (simp add: mirrors_live_def in_connections_of)
qed

lemma presence_follows_live_connections:
  assumes r: "run init_config evs = Some c" and o: "orderly init_config evs"
    and a: "admissible c ev" and i: "in_time c ev" and t: "login_truthy ev"
    and L: "truthy L"
  shows "broadcasts (actions (step (server c) ev)) (JoinOut L) =
           (if connections_of c L = {} \<and> connections_of (next_config c ev) L \<noteq> {}
            then 1 else 0)
       \<and> broadcasts (actions (step (server c) ev)) (LeaveOut L) =
           (if connections_of c L \<noteq> {} \<and> connections_of (next_config c ev) L = {}
            then 1 else 0)"
proof -
  have m: "mirrors_live c"
    using mirrors_live_init o r by (rule mirrors_live_run)
  then have m': "mirrors_live (next_config c ev)"
    using a i t by (rule mirrors_live_next)
  have before: "sockets_of (server c) L = connections_of c L"
    using m L by (rule mirrors_live_sockets_of)
  have "sockets_of (server (next_config c ev)) L = connections_of (next_config c ev) L"
    using m' L by (rule mirrors_live_sockets_of)
  then have after: "sockets_of (state_after (step (server c) ev)) L = connections_of (next_config c ev) L"
    by (simp add: server_next_config)
  from presence_counts [OF r a i, of L] show ?thesis
    unfolding before after .
qed

text \<open>
  An authentication that settles after its socket has disconnected is not covered by
  that: the closed socket is registered again, and when it had a login whose set is
  empty, the leave of that login is broadcast a second time. Socket 1 is amy and
  disconnects, then its authentication as carol settles.
\<close>

lemma late_settlement_repeats_leave:
  "run init_config
      [Connection 1, Connection 3, auth_ok 3 bob, auth_ok 1 amy, Disconnect 1, auth_ok 1 carol]
     = Some (exec init_config
      [Connection 1, Connection 3, auth_ok 3 bob, auth_ok 1 amy, Disconnect 1, auth_ok 1 carol])
 \<and> actions (step (server (exec init_config
      [Connection 1, Connection 3, auth_ok 3 bob, auth_ok 1 amy])) (Disconnect 1))
     = [Broadcast (LeaveOut amy) [3]]
 \<and> connections_of (exec init_config
      [Connection 1, Connection 3, auth_ok 3 bob, auth_ok 1 amy, Disconnect 1]) amy = {}
 \<and> actions (step (server (exec init_config
      [Connection 1, Connection 3, auth_ok 3 bob, auth_ok 1 amy, Disconnect 1])) (auth_ok 1 carol))
     = [Emit 1 (AuthOk carol), Broadcast (LeaveOut amy) [3, 1], Broadcast (JoinOut carol) [3]]
 \<and> connections_of (exec init_config
      [Connection 1, Connection 3, auth_ok 3 bob, auth_ok 1 amy, Disconnect 1, auth_ok 1 carol]) amy = {}
 \<and> connections_of (exec init_config
      [Connection 1, Connection 3, auth_ok 3 bob, auth_ok 1 amy, Disconnect 1, auth_ok 1 carol]) carol = {}
 \<and> userSockets (server (exec init_config
      [Connection 1, Connection 3, auth_ok 3 bob, auth_ok 1 amy, Disconnect 1, auth_ok 1 carol]))
     = [(bob, [3]), (carol, [1])]"
proof -
  have "run init_config
      [Connection 1, Connection 3, auth_ok 3 bob, auth_ok 1 amy, Disconnect 1, auth_ok 1 carol]
     = Some (exec init_config
      [Connection 1, Connection 3, auth_ok 3 bob, auth_ok 1 amy, Disconnect 1, auth_ok 1 carol])"
    by (simp add: run_eval)
  moreover have "actions (step (server (exec init_config
      [Connection 1, Connection 3, auth_ok 3 bob, auth_ok 1 amy])) (Disconnect 1))
     = [Broadcast (LeaveOut amy) [3]]"
    by code_simp
  moreover have "connections_of (exec init_config
      [Connection 1, Connection 3, auth_ok 3 bob, auth_ok 1 amy, Disconnect 1]) amy = {}"
    by code_simp
  moreover have "actions (step (server (exec init_config
      [Connection 1, Connection 3, auth_ok 3 bob, auth_ok 1 amy, Disconnect 1])) (auth_ok 1 carol))
     = [Emit 1 (AuthOk carol), Broadcast (LeaveOut amy) [3, 1], Broadcast (JoinOut carol) [3]]"
    by code_simp
  moreover have "connections_of (exec init_config
      [Connection 1, Connection 3, auth_ok 3 bob, auth_ok 1 amy, Disconnect 1, auth_ok 1 carol]) amy = {}"
    by code_simp
  moreover have "connections_of (exec init_config
      [Connection 1, Connection 3, auth_ok 3 bob, auth_ok 1 amy, Disconnect 1, auth_ok 1 carol]) carol = {}"
    by code_simp
  moreover have "userSockets (server (exec init_config
      [Connection 1, Connection 3, auth_ok 3 bob, auth_ok 1 amy, Disconnect 1, auth_ok 1 carol]))
     = [(bob, [3]), (carol, [1])]"
    by code_simp
  ultimately show ?thesis by (intro conjI)
qed

text \<open>
  C1. The claim fails on the code for the empty login. \<^verbatim>\<open>_unregisterSocket\<close> and the
  disconnect handler test \<^verbatim>\<open>!login\<close>, which is true of the empty string: when the only
  live connection of that login disconnects, nothing is broadcast and the closed socket
  stays in the login's set, so the next connection that authenticates with the login is
  not announced either. Socket 3 is bob throughout; socket 1 authenticates with the
  empty login (announced to socket 3) and disconnects; socket 2 connects and
  authenticates with the empty login.
\<close>

theorem empty_login_comes_and_goes_unannounced:
  "run init_config
      [Connection 1, Connection 3, auth_ok 3 bob, auth_ok 1 empty_login, Disconnect 1, Connection 2,
       auth_ok 2 empty_login]
     = Some (exec init_config
      [Connection 1, Connection 3, auth_ok 3 bob, auth_ok 1 empty_login, Disconnect 1, Connection 2,
       auth_ok 2 empty_login])
 \<and> actions (step (server (exec init_config [Connection 1, Connection 3, auth_ok 3 bob]))
      (auth_ok 1 empty_login))
     = [Emit 1 (AuthOk empty_login), Broadcast (JoinOut empty_login) [3]]
 \<and> connections_of (exec init_config
      [Connection 1, Connection 3, auth_ok 3 bob, auth_ok 1 empty_login]) empty_login = {1}
 \<and> actions (step (server (exec init_config
      [Connection 1, Connection 3, auth_ok 3 bob, auth_ok 1 empty_login])) (Disconnect 1)) = []
 \<and> connections_of (exec init_config
      [Connection 1, Connection 3, auth_ok 3 bob, auth_ok 1 empty_login, Disconnect 1]) empty_login = {}
 \<and> connections_of (exec init_config
      [Connection 1, Connection 3, auth_ok 3 bob, auth_ok 1 empty_login, Disconnect 1, Connection 2]) empty_login = {}
 \<and> actions (step (server (exec init_config
      [Connection 1, Connection 3, auth_ok 3 bob, auth_ok 1 empty_login, Disconnect 1, Connection 2])) (auth_ok 2 empty_login))
     = [Emit 2 (AuthOk empty_login)]
 \<and> connections_of (exec init_config
      [Connection 1, Connection 3, auth_ok 3 bob, auth_ok 1 empty_login, Disconnect 1, Connection 2,
       auth_ok 2 empty_login]) empty_login = {2}"
proof -
  have "run init_config
      [Connection 1, Connection 3, auth_ok 3 bob, auth_ok 1 empty_login, Disconnect 1, Connection 2,
       auth_ok 2 empty_login]
     = Some (exec init_config
      [Connection 1, Connection 3, auth_ok 3 bob, auth_ok 1 empty_login, Disconnect 1, Connection 2,
       auth_ok 2 empty_login])"
    by (simp add: run_eval)
  moreover have "actions (step (server (exec init_config [Connection 1, Connection 3, auth_ok 3 bob]))
      (auth_ok 1 empty_login))
     = [Emit 1 (AuthOk empty_login), Broadcast (JoinOut empty_login) [3]]"
    by code_simp
  moreover have "connections_of (exec init_config
      [Connection 1, Connection 3, auth_ok 3 bob, auth_ok 1 empty_login]) empty_login = {1}"
    by code_simp
  moreover have "actions (step (server (exec init_config
      [Connection 1, Connection 3, auth_ok 3 bob, auth_ok 1 empty_login])) (Disconnect 1)) = []"
    by code_simp
  moreover have "connections_of (exec init_config
      [Connection 1, Connection 3, auth_ok 3 bob, auth_ok 1 empty_login, Disconnect 1]) empty_login = {}"
    by code_simp
  moreover have "connections_of (exec init_config
      [Connection 1, Connection 3, auth_ok 3 bob, auth_ok 1 empty_login, Disconnect 1, Connection 2]) empty_login = {}"
    by code_simp
  moreover have "actions (step (server (exec init_config
      [Connection 1, Connection 3, auth_ok 3 bob, auth_ok 1 empty_login, Disconnect 1, Connection 2])) (auth_ok 2 empty_login))
     = [Emit 2 (AuthOk empty_login)]"
    by code_simp
  moreover have "connections_of (exec init_config
      [Connection 1, Connection 3, auth_ok 3 bob, auth_ok 1 empty_login, Disconnect 1, Connection 2,
       auth_ok 2 empty_login]) empty_login = {2}"
    by code_simp
  ultimately show ?thesis by (intro conjI)
qed

section \<open>Chat\<close>

text \<open>
  C6. A chat event from a connection whose login is \<^verbatim>\<open>null\<close> leaves the whole
  state as it was (the registry with it), and no connection is sent anything: no chat
  is broadcast and the sender gets no reply. This holds for every argument of the
  event, also for one the handler cannot read.
\<close>

theorem unbound_chat_is_dropped:
  assumes "clientData st s = None"
  shows "state_after (step st (Chat s p)) = st
       \<and> (\<forall>t m. \<not> delivered (actions (step st (Chat s p))) t m)"
  using assms
  by (simp add: on_chat_def truthy_def split: chat_payload.splits option.splits)

text \<open>An instance: socket 1 never authenticated; socket 2 is amy.\<close>

theorem unbound_chat_is_dropped_witness:
  "clientData (server (exec init_config [Connection 1, Connection 2, auth_ok 2 amy])) 1 = None
 \<and> state_after (step (server (exec init_config [Connection 1, Connection 2, auth_ok 2 amy]))
      (says 1 ''hi''))
     = server (exec init_config [Connection 1, Connection 2, auth_ok 2 amy])
 \<and> \<not> delivered (actions (step (server (exec init_config
        [Connection 1, Connection 2, auth_ok 2 amy])) (says 1 ''hi''))) 2 (ChatOut None (Some ''hi''))
 \<and> \<not> delivered (actions (step (server (exec init_config
        [Connection 1, Connection 2, auth_ok 2 amy])) (Chat 1 ChatUndefined))) 2
        (ChatOut None None)"
proof -
  let ?st = "server (exec init_config [Connection 1, Connection 2, auth_ok 2 amy])"
  have cd: "clientData ?st 1 = None" by code_simp
  note th = unbound_chat_is_dropped [OF cd, of "ChatObj (Some ''hi'')"]
  note th' = unbound_chat_is_dropped [OF cd, of ChatUndefined]
  show ?thesis
    by (intro conjI cd th [THEN conjunct1] th [THEN conjunct2, rule_format]
        th' [THEN conjunct2, rule_format])
qed

section \<open>Replies to auth and register\<close>

text \<open>The replies.\<close>

lemma error_info_eta: "\<lparr>name = name e, code = code e, message = message e\<rparr> = (e::error_info)"
  by simp

lemma receives_notify:
  "receives t m (notifyUserJoin st l) \<longleftrightarrow> m = JoinOut l \<and> registered st t \<and> clientData st t \<noteq> l"
  "receives t m (notifyUserLeave st l) \<longleftrightarrow> m = LeaveOut l \<and> registered st t \<and> clientData st t \<noteq> l"
  by (auto simp: notifyUserJoin_def notifyUserLeave_def receives_broadcastMessage)

lemma delivered_authorizeSocket_result:
  "is_result m \<Longrightarrow> \<not> delivered (snd (authorizeSocket st l s)) t m"
  by (auto simp: snd_authorizeSocket receives_notify)

lemma broadcasts_authorizeSocket_result:
  "is_result m \<Longrightarrow> broadcasts (snd (authorizeSocket st l s)) m = 0"
  by (auto simp: snd_authorizeSocket)

lemma result_delivery:
  assumes "is_result m"
  shows "(delivered (actions (step st ev)) t m \<longrightarrow> t = origin ev)
       \<and> broadcasts (actions (step st ev)) m = 0"
proof (cases ev)
  case (Connection s)
  then show ?thesis by (simp add: on_connection_def)
next
  case (Chat s p)
  with assms show ?thesis
    by (auto simp: on_chat_def receives_broadcastMessage broadcastMessage_def
        split: chat_payload.splits option.splits)
next
  case (Auth s p r)
  with assms show ?thesis
    by (auto simp: actions_on_auth delivered_authorizeSocket_result
        broadcasts_authorizeSocket_result split: cred_payload.splits settlement.splits)
next
  case (Register s p r)
  then show ?thesis
    by (auto simp: on_register_def split: cred_payload.splits settlement.splits)
next
  case (Disconnect s)
  with assms show ?thesis
    by (auto simp: actions_on_disconnect receives_notify)
qed

text \<open>
  C7. The reply to an \<^verbatim>\<open>auth\<close> or \<^verbatim>\<open>register\<close> event is emitted to the originating
  connection: \<open>{success: true, login}\<close> when the authenticator's promise is fulfilled,
  \<open>{success: false, error: {name, code, message}}\<close> when it is rejected. No handler,
  for any event, delivers such a reply to a connection other than the one the event
  came from, and no broadcast carries one.
\<close>

theorem results_go_to_the_origin_only:
  "actions (step st (Auth s (CredObj l pw) (Rejected e))) = [Emit s (AuthFail e)]
 \<and> actions (step st (Register s (CredObj l pw) Fulfilled)) = [Emit s (RegisterOk l)]
 \<and> actions (step st (Register s (CredObj l pw) (Rejected e))) = [Emit s (RegisterFail e)]
 \<and> delivered (actions (step st (Auth s (CredObj l pw) Fulfilled))) s (AuthOk l)
 \<and> (\<forall>ev t m. is_result m \<and> delivered (actions (step st ev)) t m \<longrightarrow> t = origin ev)
 \<and> (\<forall>ev m. is_result m \<longrightarrow> broadcasts (actions (step st ev)) m = 0)"
proof -
  have "\<forall>ev t m. is_result m \<and> delivered (actions (step st ev)) t m \<longrightarrow> t = origin ev"
    using result_delivery by blast
  moreover have "\<forall>ev m. is_result m \<longrightarrow> broadcasts (actions (step st ev)) m = 0"
    using result_delivery by blast
  ultimately show ?thesis
    by (simp add: actions_on_auth on_register_def)
qed

text \<open>An instance: socket 1 authenticates as amy while socket 2 is bob.\<close>

theorem results_go_to_the_origin_only_witness:
  "is_result (AuthOk amy)
 \<and> delivered (actions (step (server (exec init_config [Connection 1, Connection 2, auth_ok 2 bob]))
      (auth_ok 1 amy))) 1 (AuthOk amy)
 \<and> \<not> delivered (actions (step (server (exec init_config [Connection 1, Connection 2, auth_ok 2 bob]))
      (auth_ok 1 amy))) 2 (AuthOk amy)
 \<and> broadcasts (actions (step (server (exec init_config [Connection 1, Connection 2, auth_ok 2 bob]))
      (auth_ok 1 amy))) (AuthOk amy) = 0"
proof -
  let ?st = "server (exec init_config [Connection 1, Connection 2, auth_ok 2 bob])"
  note th = results_go_to_the_origin_only [of ?st 1 amy "''secret''"]
  have res: "is_result (AuthOk amy)" by simp
  have d1: "delivered (actions (step ?st (auth_ok 1 amy))) 1 (AuthOk amy)"
    by (rule th [THEN conjunct2, THEN conjunct2, THEN conjunct2, THEN conjunct1])
  have "delivered (actions (step ?st (auth_ok 1 amy))) 2 (AuthOk amy) \<Longrightarrow> 2 = origin (auth_ok 1 amy)"
    using th [THEN conjunct2, THEN conjunct2, THEN conjunct2, THEN conjunct2, THEN conjunct1,
        rule_format, of "AuthOk amy" "auth_ok 1 amy" 2] res by blast
  then have d2: "\<not> delivered (actions (step ?st (auth_ok 1 amy))) 2 (AuthOk amy)"
    by auto
  have b: "broadcasts (actions (step ?st (auth_ok 1 amy))) (AuthOk amy) = 0"
    using th [THEN conjunct2, THEN conjunct2, THEN conjunct2, THEN conjunct2, THEN conjunct2,
        rule_format, of "AuthOk amy" "auth_ok 1 amy"] res by blast
  show ?thesis by (intro conjI res d1 d2 b)
qed

section \<open>Authenticating again as the same login\<close>

text \<open>The registry after \<^verbatim>\<open>_authorizeSocket\<close> with the login the socket already has.\<close>

lemma get_authorized:
  "Map_get (userSockets (authorized st l s)) k =
     (if k = l then Some (Set_add s (getOrNew (unregisterSocket st s) k))
      else Map_get (userSockets (unregisterSocket st s)) k)"
  by (simp add: authorized_def get_registerSocket getOrNew_def)

lemma in_sockets_of_get:
  "s \<in> sockets_of st l \<Longrightarrow> \<exists>S. Map_get (userSockets st) l = Some S \<and> s \<in> set S"
  by (cases "Map_get (userSockets st) l") (auto simp: sockets_of_def getOrNew_def)

lemma registry_reauthorized:
  assumes "s \<in> sockets_of st l" and "clientData st s = l"
  shows "registry (authorized st l s) = registry st"
proof
  fix k
  from assms(1) obtain S where S: "Map_get (userSockets st) l = Some S" "s \<in> set S"
    using in_sockets_of_get by blast
  show "registry (authorized st l s) k = registry st k"
  proof (cases "k = l")
    case True
    have "getOrNew st l = S" using S(1) by (simp add: getOrNew_def)
    then have "set (Set_add s (getOrNew (unregisterSocket st s) l)) = set S"
      using S(2) by (auto simp: set_Set_add getOrNew_unregisterSocket set_Set_delete)
    with True S show ?thesis
      by (simp add: registry_def get_authorized)
  next
    case False
    with assms(2) show ?thesis
      by (simp add: registry_def get_authorized get_unregisterSocket)
  qed
qed

lemma actions_reauthorized:
  assumes "s \<in> sockets_of st l" and "clientData st s = l"
  shows "snd (authorizeSocket st l s) = []"
proof -
  from assms(1) have "Map_get (userSockets st) l \<noteq> None"
    using in_sockets_of_get by fastforce
  with assms(2) show ?thesis
    by (simp add: snd_authorizeSocket)
qed

text \<open>
  C10. When a live connection whose login is \<open>L\<close> authenticates again, with
  success, as \<open>L\<close>, the registry is the same mapping from logins to sets as before,
  every socket keeps its login, and the only effect is the reply to the connection: no
  join and no leave is sent to anyone.
\<close>

theorem reauth_same_login_changes_nothing:
  assumes "run init_config evs = Some c" and "live c s"
    and "clientData (server c) s = Some L"
  shows "registry (state_after (step (server c) (Auth s (CredObj (Some L) pw) Fulfilled)))
           = registry (server c)
       \<and> clientData (state_after (step (server c) (Auth s (CredObj (Some L) pw) Fulfilled)))
           = clientData (server c)
       \<and> actions (step (server c) (Auth s (CredObj (Some L) pw) Fulfilled))
           = [Emit s (AuthOk (Some L))]"
proof -
  have "consistent c" using assms(1) by (rule inv_reachable)
  with assms(2,3) have "s \<in> sockets_of (server c) (Some L)"
    by (simp add: consistent_def bound_registered_def)
  with assms(3) show ?thesis
    by (simp add: state_after_on_auth actions_on_auth registry_reauthorized
        actions_reauthorized clientData_authorized fun_upd_idem_iff)
qed

text \<open>An instance: socket 1, already amy, authenticates as amy again.\<close>

theorem reauth_same_login_changes_nothing_witness:
  "run init_config [Connection 1, Connection 2, auth_ok 1 amy, auth_ok 2 bob]
     = Some (exec init_config [Connection 1, Connection 2, auth_ok 1 amy, auth_ok 2 bob])
 \<and> live (exec init_config [Connection 1, Connection 2, auth_ok 1 amy, auth_ok 2 bob]) 1
 \<and> clientData (server (exec init_config
       [Connection 1, Connection 2, auth_ok 1 amy, auth_ok 2 bob])) 1 = amy
 \<and> registry (state_after (step (server (exec init_config
       [Connection 1, Connection 2, auth_ok 1 amy, auth_ok 2 bob])) (auth_ok 1 amy)))
     = registry (server (exec init_config
       [Connection 1, Connection 2, auth_ok 1 amy, auth_ok 2 bob]))
 \<and> actions (step (server (exec init_config
       [Connection 1, Connection 2, auth_ok 1 amy, auth_ok 2 bob])) (auth_ok 1 amy))
     = [Emit 1 (AuthOk amy)]"
proof -
  let ?evs = "[Connection 1, Connection 2, auth_ok 1 amy, auth_ok 2 bob]"
  let ?c = "exec init_config ?evs"
  have r: "run init_config ?evs = Some ?c" by (simp add: run_eval)
  have l: "live ?c 1" by code_simp
  have cd: "clientData (server ?c) 1 = amy" by code_simp
  note th = reauth_same_login_changes_nothing [OF r l cd, of "''secret''"]
  show ?thesis
    by (intro conjI r l cd th [THEN conjunct1] th [THEN conjunct2, THEN conjunct2])
qed

section \<open>Chat from a connection with a login\<close>

text \<open>Who receives the broadcast of a chat.\<close>

lemma actions_on_chat_bound:
  assumes "truthy (clientData st s)"
  shows "delivered (actions (on_chat st s (ChatObj body))) t m
           \<longleftrightarrow> m = ChatOut (clientData st s) body \<and> registered st t \<and> t \<noteq> s"
  using assms by (auto simp: on_chat_def receives_broadcastMessage)

text \<open>
  C5, amended. A chat event with a body from a live connection whose login is a
  non-empty string changes no state and throws nothing; the chat \<open>{from, body}\<close> is
  delivered exactly to the sockets registered under some login other than the sender
  itself, and nothing else is delivered. So every other live connection that has a
  login, the sender's own login included, receives it, and the sender never does.
\<close>

theorem chat_reaches_registered_others:
  assumes "run init_config evs = Some c" and "live c s"
    and "clientData (server c) s = Some L" and "L \<noteq> []"
  shows "state_after (step (server c) (Chat s (ChatObj body))) = server c
       \<and> thrown (step (server c) (Chat s (ChatObj body))) = None
       \<and> (\<forall>t m. delivered (actions (step (server c) (Chat s (ChatObj body)))) t m
              \<longleftrightarrow> m = ChatOut (Some L) body \<and> registered (server c) t \<and> t \<noteq> s)
       \<and> (\<forall>t L'. live c t \<and> t \<noteq> s \<and> clientData (server c) t = Some L'
              \<longrightarrow> delivered (actions (step (server c) (Chat s (ChatObj body)))) t
                    (ChatOut (Some L) body))"
proof -
  have tr: "truthy (clientData (server c) s)"
    using assms(3,4) by (simp add: truthy_def)
  have c: "consistent c" using assms(1) by (rule inv_reachable)
  have "registered (server c) t" if "live c t" and "clientData (server c) t = Some L'" for t L'
  proof -
    from c that have "t \<in> sockets_of (server c) (Some L')"
      by (simp add: consistent_def bound_registered_def)
    then show ?thesis by (rule in_sockets_of_registered)
  qed
  moreover have "thrown (on_chat (server c) s (ChatObj body)) = None"
    using tr by (simp add: on_chat_def)
  ultimately show ?thesis
    using tr assms(3) by (auto simp: actions_on_chat_bound state_after_on_chat)
qed

text \<open>An instance: sockets 1 and 2 are amy, socket 3 is bob, socket 4 has no login; socket 1 says hi.\<close>

theorem chat_reaches_registered_others_witness:
  "run init_config [Connection 1, Connection 2, Connection 3, Connection 4,
       auth_ok 1 amy, auth_ok 2 amy, auth_ok 3 bob]
     = Some (exec init_config [Connection 1, Connection 2, Connection 3, Connection 4,
       auth_ok 1 amy, auth_ok 2 amy, auth_ok 3 bob])
 \<and> live (exec init_config [Connection 1, Connection 2, Connection 3, Connection 4,
       auth_ok 1 amy, auth_ok 2 amy, auth_ok 3 bob]) 1
 \<and> clientData (server (exec init_config [Connection 1, Connection 2, Connection 3, Connection 4,
       auth_ok 1 amy, auth_ok 2 amy, auth_ok 3 bob])) 1 = amy
 \<and> ''amy'' \<noteq> []
 \<and> delivered (actions (step (server (exec init_config
       [Connection 1, Connection 2, Connection 3, Connection 4,
        auth_ok 1 amy, auth_ok 2 amy, auth_ok 3 bob])) (says 1 ''hi''))) 2 (ChatOut amy (Some ''hi''))
 \<and> delivered (actions (step (server (exec init_config
       [Connection 1, Connection 2, Connection 3, Connection 4,
        auth_ok 1 amy, auth_ok 2 amy, auth_ok 3 bob])) (says 1 ''hi''))) 3 (ChatOut amy (Some ''hi''))
 \<and> \<not> delivered (actions (step (server (exec init_config
       [Connection 1, Connection 2, Connection 3, Connection 4,
        auth_ok 1 amy, auth_ok 2 amy, auth_ok 3 bob])) (says 1 ''hi''))) 1 (ChatOut amy (Some ''hi''))
 \<and> \<not> delivered (actions (step (server (exec init_config
       [Connection 1, Connection 2, Connection 3, Connection 4,
        auth_ok 1 amy, auth_ok 2 amy, auth_ok 3 bob])) (says 1 ''hi''))) 4 (ChatOut amy (Some ''hi''))"
proof -
  let ?evs = "[Connection 1, Connection 2, Connection 3, Connection 4,
       auth_ok 1 amy, auth_ok 2 amy, auth_ok 3 bob]"
  let ?c = "exec init_config ?evs"
  have r: "run init_config ?evs = Some ?c" by (simp add: run_eval)
  have l: "live ?c 1" by code_simp
  have cd: "clientData (server ?c) 1 = amy" by code_simp
  have ne: "''amy'' \<noteq> []" by simp
  have l2: "live ?c 2" and cd2: "clientData (server ?c) 2 = amy" by code_simp+
  have l3: "live ?c 3" and cd3: "clientData (server ?c) 3 = bob" by code_simp+
  have r4: "\<not> registered (server ?c) 4" by code_simp
  note th = chat_reaches_registered_others [OF r l cd ne, of "Some ''hi''"]
  note only = th [THEN conjunct2, THEN conjunct2, THEN conjunct1, rule_format]
  note bound = th [THEN conjunct2, THEN conjunct2, THEN conjunct2, rule_format]
  have d2: "delivered (actions (step (server ?c) (says 1 ''hi''))) 2 (ChatOut amy (Some ''hi''))"
    by (rule bound [of 2 "''amy''"]) (intro conjI l2 cd2, simp)
  have d3: "delivered (actions (step (server ?c) (says 1 ''hi''))) 3 (ChatOut amy (Some ''hi''))"
    by (rule bound [of 3 "''bob''"]) (intro conjI l3 cd3, simp)
  have d1: "\<not> delivered (actions (step (server ?c) (says 1 ''hi''))) 1 (ChatOut amy (Some ''hi''))"
    using only [of 1 "ChatOut amy (Some ''hi'')"] by blast
  have d4: "\<not> delivered (actions (step (server ?c) (says 1 ''hi''))) 4 (ChatOut amy (Some ''hi''))"
    using only [of 4 "ChatOut amy (Some ''hi'')"] r4 by blast
  show ?thesis by (intro conjI r l cd ne d2 d3 d1 d4)
qed

text \<open>
  C5 as stated fails: a live connection that has not authenticated is not in
  \<^verbatim>\<open>_userSockets\<close>, which is all a broadcast iterates over, and receives no chat.
\<close>

theorem chat_skips_connection_without_login:
  "run init_config [Connection 1, Connection 2, auth_ok 1 amy]
     = Some (exec init_config [Connection 1, Connection 2, auth_ok 1 amy])
 \<and> live (exec init_config [Connection 1, Connection 2, auth_ok 1 amy]) 2
 \<and> clientData (server (exec init_config [Connection 1, Connection 2, auth_ok 1 amy])) 1 = amy
 \<and> \<not> delivered (actions (step (server (exec init_config
        [Connection 1, Connection 2, auth_ok 1 amy])) (says 1 ''hi''))) 2
      (ChatOut amy (Some ''hi''))"
proof -
  have "run init_config [Connection 1, Connection 2, auth_ok 1 amy]
     = Some (exec init_config [Connection 1, Connection 2, auth_ok 1 amy])"
    by (simp add: run_eval)
  moreover have "live (exec init_config [Connection 1, Connection 2, auth_ok 1 amy]) 2"
    by code_simp
  moreover have "clientData (server (exec init_config [Connection 1, Connection 2, auth_ok 1 amy])) 1 = amy"
    by code_simp
  moreover have "\<not> delivered (actions (step (server (exec init_config
        [Connection 1, Connection 2, auth_ok 1 amy])) (says 1 ''hi''))) 2
      (ChatOut amy (Some ''hi''))"
    by code_simp
  ultimately show ?thesis by (intro conjI)
qed

section \<open>Changing identity\<close>

text \<open>The recipients of a broadcast, as a set.\<close>

lemma broadcastMessage_recipients:
  "\<exists>R. broadcastMessage st m f = Broadcast m R \<and> set R = {t. registered st t \<and> f t}"
  by (auto simp: broadcastMessage_def senderSocket_def registered_iff)

text \<open>
  C2, amended. When a live connection whose login is \<open>A\<close> authenticates, with
  success, as \<open>B \<noteq> A\<close> and the set of \<open>A\<close> becomes empty, the handler replies to
  the connection, then broadcasts \<open>leave{A}\<close> to the registered sockets whose login is
  not \<open>A\<close>, the connection itself among them, and then, exactly when the set of \<open>B\<close>
  was empty before, broadcasts \<open>join{B}\<close> to the registered sockets whose login is not
  \<open>B\<close>, which excludes the connection itself.
\<close>

theorem identity_switch_notifications:
  assumes "run init_config evs = Some c" and "live c s"
    and "clientData (server c) s = Some A" and "Some A \<noteq> B"
    and "sockets_of (state_after (step (server c) (Auth s (CredObj B pw) Fulfilled))) (Some A) = {}"
  shows "\<exists>R1 R2.
      actions (step (server c) (Auth s (CredObj B pw) Fulfilled)) =
        [Emit s (AuthOk B), Broadcast (LeaveOut (Some A)) R1] @
        (if sockets_of (server c) B = {} then [Broadcast (JoinOut B) R2] else [])
    \<and> set R1 = {t. registered (state_after (step (server c) (Auth s (CredObj B pw) Fulfilled))) t
                  \<and> clientData (state_after (step (server c) (Auth s (CredObj B pw) Fulfilled))) t \<noteq> Some A}
    \<and> set R2 = {t. registered (state_after (step (server c) (Auth s (CredObj B pw) Fulfilled))) t
                  \<and> clientData (state_after (step (server c) (Auth s (CredObj B pw) Fulfilled))) t \<noteq> B}
    \<and> s \<in> set R1 \<and> s \<notin> set R2"
proof -
  let ?st = "server c" and ?st' = "authorized (server c) B s"
  have st': "state_after (step ?st (Auth s (CredObj B pw) Fulfilled)) = ?st'"
    by (simp add: state_after_on_auth)
  have c: "consistent c" using assms(1) by (rule inv_reachable)
  then have ne: "sets_nonempty ?st" by (simp add: consistent_def)
  have ne': "sets_nonempty ?st'" using ne by (rule sets_nonempty_authorized)
  from c assms(2,3) have mem: "s \<in> sockets_of ?st (Some A)"
    by (simp add: consistent_def bound_registered_def)
  have empty: "sockets_of ?st' (Some A) = {}" using assms(5) st' by simp
  have tr: "truthy (clientData ?st s)"
  proof (rule ccontr)
    assume "\<not> truthy (clientData ?st s)"
    with mem assms(3,4) have "s \<in> sockets_of ?st' (Some A)"
      by (auto simp: sockets_of_authorized)
    with empty show False by simp
  qed
  have gone: "Map_get (userSockets ?st') (Some A) = None"
    using sets_nonempty_sockets_of [OF ne'] empty by simp
  have had: "(Map_get (userSockets ?st) B = None) = (sockets_of ?st B = {})"
    using ne by (rule sets_nonempty_sockets_of)
  obtain R1 where R1: "notifyUserLeave ?st' (Some A) = Broadcast (LeaveOut (Some A)) R1"
      "set R1 = {t. registered ?st' t \<and> clientData ?st' t \<noteq> Some A}"
    using broadcastMessage_recipients [of ?st' "LeaveOut (Some A)" "\<lambda>t. clientData ?st' t \<noteq> Some A"]
    by (auto simp: notifyUserLeave_def)
  obtain R2 where R2: "notifyUserJoin ?st' B = Broadcast (JoinOut B) R2"
      "set R2 = {t. registered ?st' t \<and> clientData ?st' t \<noteq> B}"
    using broadcastMessage_recipients [of ?st' "JoinOut B" "\<lambda>t. clientData ?st' t \<noteq> B"]
    by (auto simp: notifyUserJoin_def)
  have "s \<in> sockets_of ?st' B" by (simp add: sockets_of_authorized)
  then have reg: "registered ?st' s" by (rule in_sockets_of_registered)
  have cd: "clientData ?st' s = B" by (simp add: clientData_authorized)
  have acts: "actions (step ?st (Auth s (CredObj B pw) Fulfilled)) =
        [Emit s (AuthOk B), Broadcast (LeaveOut (Some A)) R1] @
        (if sockets_of ?st B = {} then [Broadcast (JoinOut B) R2] else [])"
    using tr assms(3,4) gone had R1(1) R2(1)
    by (simp add: actions_on_auth snd_authorizeSocket)
  have "s \<in> set R1" using R1(2) reg cd assms(4) by auto
  moreover have "s \<notin> set R2" using R2(2) cd by simp
  ultimately show ?thesis
    using acts R1(2) R2(2) st' by (intro exI [of _ R1] exI [of _ R2]) simp
qed

text \<open>An instance: socket 1 changes from amy to bob while socket 2 is carol.\<close>

theorem identity_switch_notifications_witness:
  "run init_config [Connection 1, Connection 2, auth_ok 1 amy, auth_ok 2 carol]
     = Some (exec init_config [Connection 1, Connection 2, auth_ok 1 amy, auth_ok 2 carol])
 \<and> live (exec init_config [Connection 1, Connection 2, auth_ok 1 amy, auth_ok 2 carol]) 1
 \<and> clientData (server (exec init_config
       [Connection 1, Connection 2, auth_ok 1 amy, auth_ok 2 carol])) 1 = amy
 \<and> amy \<noteq> bob
 \<and> sockets_of (state_after (step (server (exec init_config
       [Connection 1, Connection 2, auth_ok 1 amy, auth_ok 2 carol])) (auth_ok 1 bob))) amy = {}
 \<and> sockets_of (server (exec init_config
       [Connection 1, Connection 2, auth_ok 1 amy, auth_ok 2 carol])) bob = {}
 \<and> (\<exists>R1 R2. actions (step (server (exec init_config
       [Connection 1, Connection 2, auth_ok 1 amy, auth_ok 2 carol])) (auth_ok 1 bob))
        = [Emit 1 (AuthOk bob), Broadcast (LeaveOut amy) R1, Broadcast (JoinOut bob) R2]
      \<and> 1 \<in> set R1 \<and> 1 \<notin> set R2)"
proof -
  let ?evs = "[Connection 1, Connection 2, auth_ok 1 amy, auth_ok 2 carol]"
  let ?c = "exec init_config ?evs"
  have r: "run init_config ?evs = Some ?c" by (simp add: run_eval)
  have l: "live ?c 1" by code_simp
  have cd: "clientData (server ?c) 1 = amy" by code_simp
  have ne: "amy \<noteq> bob" by simp
  have gone: "sockets_of (state_after (step (server ?c) (auth_ok 1 bob))) amy = {}" by code_simp
  have absent: "sockets_of (server ?c) bob = {}" by code_simp
  from identity_switch_notifications [OF r l cd ne gone] absent
  have "\<exists>R1 R2. actions (step (server ?c) (auth_ok 1 bob))
        = [Emit 1 (AuthOk bob), Broadcast (LeaveOut amy) R1, Broadcast (JoinOut bob) R2]
      \<and> 1 \<in> set R1 \<and> 1 \<notin> set R2"
    by auto
  with r l cd ne gone absent show ?thesis by (intro conjI)
qed

text \<open>
  C2 as stated fails: \<open>leave{A}\<close> is not withheld from the connection that changed
  identity. The filter of \<^verbatim>\<open>_notifyUserLeave\<close> compares logins, and the connection's
  login is \<open>B\<close> by then.
\<close>

theorem identity_switch_reaches_the_switching_connection:
  "run init_config [Connection 1, Connection 2, auth_ok 1 amy, auth_ok 2 carol]
     = Some (exec init_config [Connection 1, Connection 2, auth_ok 1 amy, auth_ok 2 carol])
 \<and> clientData (server (exec init_config
       [Connection 1, Connection 2, auth_ok 1 amy, auth_ok 2 carol])) 1 = amy
 \<and> sockets_of (state_after (step (server (exec init_config
       [Connection 1, Connection 2, auth_ok 1 amy, auth_ok 2 carol])) (auth_ok 1 bob))) amy = {}
 \<and> actions (step (server (exec init_config
       [Connection 1, Connection 2, auth_ok 1 amy, auth_ok 2 carol])) (auth_ok 1 bob))
     = [Emit 1 (AuthOk bob), Broadcast (LeaveOut amy) [2, 1], Broadcast (JoinOut bob) [2]]
 \<and> delivered (actions (step (server (exec init_config
       [Connection 1, Connection 2, auth_ok 1 amy, auth_ok 2 carol])) (auth_ok 1 bob)))
     1 (LeaveOut amy)"
proof -
  have "run init_config [Connection 1, Connection 2, auth_ok 1 amy, auth_ok 2 carol]
     = Some (exec init_config [Connection 1, Connection 2, auth_ok 1 amy, auth_ok 2 carol])"
    by (simp add: run_eval)
  moreover have "clientData (server (exec init_config
       [Connection 1, Connection 2, auth_ok 1 amy, auth_ok 2 carol])) 1 = amy"
    by code_simp
  moreover have "sockets_of (state_after (step (server (exec init_config
       [Connection 1, Connection 2, auth_ok 1 amy, auth_ok 2 carol])) (auth_ok 1 bob))) amy = {}"
    by code_simp
  moreover have "actions (step (server (exec init_config
       [Connection 1, Connection 2, auth_ok 1 amy, auth_ok 2 carol])) (auth_ok 1 bob))
     = [Emit 1 (AuthOk bob), Broadcast (LeaveOut amy) [2, 1], Broadcast (JoinOut bob) [2]]"
    by code_simp
  moreover have "delivered (actions (step (server (exec init_config
       [Connection 1, Connection 2, auth_ok 1 amy, auth_ok 2 carol])) (auth_ok 1 bob)))
     1 (LeaveOut amy)"
    by code_simp
  ultimately show ?thesis by (intro conjI)
qed

section \<open>Exceptions\<close>

text \<open>Which events make the handler throw.\<close>

lemma thrown_step:
  "thrown (step st ev) = (if malformed st ev then Some TypeError else call_throws ev)"
proof (cases ev)
  case (Chat s p)
  then show ?thesis
  proof (cases p)
    case ChatUndefined
    with Chat show ?thesis by (simp add: on_chat_def)
  next
    case (ChatObj body)
    with Chat show ?thesis by (cases body) (simp_all add: on_chat_def)
  qed
next
  case (Auth s p r)
  then show ?thesis
    by (cases p; cases r) (simp_all add: on_auth_def split_beta)
next
  case (Register s p r)
  then show ?thesis
    by (cases p; cases r) (simp_all add: on_register_def)
qed (simp_all add: on_connection_def on_disconnect_def Let_def)

text \<open>
  C8, amended. A handler throws exactly in two cases, and nothing in it catches the
  exception. It cannot read the event's argument (no argument, or a chat without body
  from a socket whose login is falsy): a TypeError. Or it reads the argument and the call
  of the authenticator's method throws: that exception. In every other case the handler
  returns, and a rejection of the authenticator's promise is not thrown: it becomes the
  failure reply to the originating connection.
\<close>

theorem handlers_throw_exactly_when:
  "(\<not> malformed st ev \<and> call_throws ev = None \<longrightarrow> thrown (step st ev) = None)
 \<and> (malformed st ev \<longrightarrow> thrown (step st ev) = Some TypeError)
 \<and> (\<not> malformed st ev \<and> call_throws ev = Some x \<longrightarrow> thrown (step st ev) = Some x)
 \<and> step st (Auth s (CredObj l pw) (Rejected e)) = returns st [Emit s (AuthFail e)]
 \<and> step st (Register s (CredObj l pw) (Rejected e)) = returns st [Emit s (RegisterFail e)]"
  by (simp add: thrown_step on_auth_def on_register_def)

text \<open>
  An instance: socket 1 has no login; a chat with a body returns, a chat without body
  throws, and a register with its argument throws when the authenticator is the
  DummyAuthenticator.
\<close>

theorem handlers_throw_exactly_when_witness:
  "\<not> malformed (server (exec init_config [Connection 1])) (says 1 ''hi'')
 \<and> call_throws (says 1 ''hi'') = None
 \<and> thrown (step (server (exec init_config [Connection 1])) (says 1 ''hi'')) = None
 \<and> malformed (server (exec init_config [Connection 1])) (Chat 1 (ChatObj None))
 \<and> thrown (step (server (exec init_config [Connection 1])) (Chat 1 (ChatObj None)))
     = Some TypeError
 \<and> \<not> malformed (server (exec init_config [Connection 1]))
      (Register 1 (CredObj bob ''secret'') (DummyAuthenticator_register bob ''secret''))
 \<and> call_throws (Register 1 (CredObj bob ''secret'') (DummyAuthenticator_register bob ''secret''))
     = Some TypeError
 \<and> thrown (step (server (exec init_config [Connection 1]))
      (Register 1 (CredObj bob ''secret'') (DummyAuthenticator_register bob ''secret'')))
     = Some TypeError"
proof -
  let ?st = "server (exec init_config [Connection 1])"
  let ?reg = "Register 1 (CredObj bob ''secret'') (DummyAuthenticator_register bob ''secret'')"
  have ok: "\<not> malformed ?st (says 1 ''hi'')" by code_simp
  have quiet: "call_throws (says 1 ''hi'') = None" by code_simp
  have bad: "malformed ?st (Chat 1 (ChatObj None))" by code_simp
  have ok': "\<not> malformed ?st ?reg" by code_simp
  have loud: "call_throws ?reg = Some TypeError" by code_simp
  note th = handlers_throw_exactly_when [of ?st "says 1 ''hi''"]
  note th' = handlers_throw_exactly_when [of ?st "Chat 1 (ChatObj None)"]
  note th'' = handlers_throw_exactly_when [of ?st ?reg TypeError]
  have returns: "thrown (step ?st (says 1 ''hi'')) = None"
    by (rule th [THEN conjunct1, rule_format]) (intro conjI ok quiet)
  have unreadable: "thrown (step ?st (Chat 1 (ChatObj None))) = Some TypeError"
    by (rule th' [THEN conjunct2, THEN conjunct1, rule_format, OF bad])
  have call: "thrown (step ?st ?reg) = Some TypeError"
    by (rule th'' [THEN conjunct2, THEN conjunct2, THEN conjunct1, rule_format])
      (intro conjI ok' loud)
  show ?thesis
    by (intro conjI ok quiet returns bad unreadable ok' loud call)
qed

text \<open>
  C8 as stated fails: the handlers contain no \<^verbatim>\<open>try\<close>. An argument they cannot read
  makes them throw, and so does an authenticator without the method they call.
\<close>

theorem handlers_throw_past_themselves:
  "run init_config [Connection 1] = Some (exec init_config [Connection 1])
 \<and> admissible (exec init_config [Connection 1]) (Chat 1 (ChatObj None))
 \<and> thrown (step (server (exec init_config [Connection 1])) (Chat 1 (ChatObj None)))
     = Some TypeError
 \<and> thrown (step (server (exec init_config [Connection 1])) (Chat 1 ChatUndefined))
     = Some TypeError
 \<and> thrown (step (server (exec init_config [Connection 1])) (Auth 1 CredUndefined Fulfilled))
     = Some TypeError
 \<and> thrown (step (server (exec init_config [Connection 1]))
      (Register 1 (CredObj bob ''secret'') (DummyAuthenticator_register bob ''secret'')))
     = Some TypeError"
proof -
  have "run init_config [Connection 1] = Some (exec init_config [Connection 1])"
    by (simp add: run_eval)
  moreover have "admissible (exec init_config [Connection 1]) (Chat 1 (ChatObj None))"
    by code_simp
  moreover have "thrown (step (server (exec init_config [Connection 1])) (Chat 1 (ChatObj None)))
     = Some TypeError"
    by code_simp
  moreover have "thrown (step (server (exec init_config [Connection 1])) (Chat 1 ChatUndefined))
     = Some TypeError"
    by code_simp
  moreover have "thrown (step (server (exec init_config [Connection 1])) (Auth 1 CredUndefined Fulfilled))
     = Some TypeError"
    by code_simp
  moreover have "thrown (step (server (exec init_config [Connection 1]))
      (Register 1 (CredObj bob ''secret'') (DummyAuthenticator_register bob ''secret'')))
     = Some TypeError"
    by code_simp
  ultimately show ?thesis by (intro conjI)
qed

section \<open>Registration\<close>












section \<open>The empty login\<close>

text \<open>
  What \<^verbatim>\<open>_unregisterSocket\<close> does for a socket whose login is truthy, and for one whose
  login is \<^verbatim>\<open>null\<close>.
\<close>

lemma unregisterSocket_unbound: "clientData st s = None \<Longrightarrow> unregisterSocket st s = st"
  by (simp add: unregisterSocket_def truthy_def)

lemma unregisterSocket_bound:
  assumes "truthy (clientData st s)"
  shows "sockets_of (unregisterSocket st s) k =
           (if k = clientData st s then sockets_of st k - {s} else sockets_of st k)"
    and "clientData (unregisterSocket st s) = clientData st"
    and "(Map_get (userSockets (unregisterSocket st s)) (clientData st s) = None)
           = (sockets_of st (clientData st s) \<subseteq> {s})"
proof -
  show "sockets_of (unregisterSocket st s) k =
           (if k = clientData st s then sockets_of st k - {s} else sockets_of st k)"
    using assms by (simp add: sockets_of_unregisterSocket)
  show "clientData (unregisterSocket st s) = clientData st"
    by (rule clientData_unregisterSocket)
  show "(Map_get (userSockets (unregisterSocket st s)) (clientData st s) = None)
           = (sockets_of st (clientData st s) \<subseteq> {s})"
    using assms by (simp add: get_unregisterSocket Set_delete_empty sockets_of_def)
qed

text \<open>
  In the runs that authenticate truthy logins only, a socket is in the set of at most
  one login; and in every run a login is a key of the registry exactly when its set is
  non-empty.
\<close>

lemma keyed_by_login_init: "keyed_by_login init_config"
  by (simp add: keyed_by_login_def init_config_def init_def sockets_of_def getOrNew_def)

lemma keyed_by_login_authorized:
  assumes k: "keyed_by_login c" and l: "s \<in> opened c" and t: "truthy l"
  shows "keyed_by_login (c\<lparr>server := authorized (server c) l s\<rparr>)"
  unfolding keyed_by_login_def
proof (intro allI impI)
  fix k t
  assume "t \<in> sockets_of (server (c\<lparr>server := authorized (server c) l s\<rparr>)) k"
  then have mem: "t \<in> sockets_of (authorized (server c) l s) k" by simp
  have old: "clientData (server c) t' = k' \<and> truthy k' \<and> t' \<in> opened c"
    if "t' \<in> sockets_of (server c) k'" for t' k'
    using k that by (simp add: keyed_by_login_def)
  show "clientData (server (c\<lparr>server := authorized (server c) l s\<rparr>)) t = k \<and> truthy k
      \<and> t \<in> opened (c\<lparr>server := authorized (server c) l s\<rparr>)"
  proof (cases "t = s")
    case True
    have "k = l"
    proof (rule ccontr)
      assume "k \<noteq> l"
      with mem True have "s \<in> sockets_of (server c) k"
        and "\<not> (truthy (clientData (server c) s) \<and> k = clientData (server c) s)"
        by (auto simp: sockets_of_authorized split: if_splits)
      with old [of s k] show False by simp
    qed
    with True t l show ?thesis
      by (simp add: clientData_authorized live_def)
  next
    case False
    with mem have "t \<in> sockets_of (server c) k"
      by (auto simp: sockets_of_authorized split: if_splits)
    with old [of t k] False show ?thesis
      by (simp add: clientData_authorized)
  qed
qed

lemma keyed_by_login_unchanged:
  assumes "keyed_by_login c" and "state_after (step (server c) ev) = server c"
    and "opened c \<subseteq> opened (transport_after c ev)"
  shows "keyed_by_login (next_config c ev)"
  unfolding keyed_by_login_def
proof (intro allI impI)
  fix k t
  assume "t \<in> sockets_of (server (next_config c ev)) k"
  then have "t \<in> sockets_of (server c) k"
    using assms(2) by (simp add: next_config_def)
  with assms(1) have "clientData (server c) t = k \<and> truthy k \<and> t \<in> opened c"
    by (simp add: keyed_by_login_def)
  with assms(2,3) show "clientData (server (next_config c ev)) t = k \<and> truthy k
      \<and> t \<in> opened (next_config c ev)"
    by (auto simp: next_config_def)
qed

lemma keyed_by_login_connection:
  assumes "keyed_by_login c" and "s \<notin> opened c"
  shows "keyed_by_login (next_config c (Connection s))"
  unfolding keyed_by_login_def
proof (intro allI impI)
  fix k t
  assume "t \<in> sockets_of (server (next_config c (Connection s))) k"
  then have "t \<in> sockets_of (server c) k"
    by (simp add: next_config_def state_after_on_connection)
  with assms(1) have old: "clientData (server c) t = k \<and> truthy k \<and> t \<in> opened c"
    by (simp add: keyed_by_login_def)
  with assms(2) have "t \<noteq> s" by blast
  with old show "clientData (server (next_config c (Connection s))) t = k \<and> truthy k
      \<and> t \<in> opened (next_config c (Connection s))"
    by (simp add: next_config_def state_after_on_connection)
qed

lemma keyed_by_login_disconnect:
  assumes "keyed_by_login c"
  shows "keyed_by_login (next_config c (Disconnect s))"
  unfolding keyed_by_login_def
proof (intro allI impI)
  fix k t
  assume "t \<in> sockets_of (server (next_config c (Disconnect s))) k"
  then have "t \<in> sockets_of (unregisterSocket (server c) s) k"
    by (simp add: next_config_def state_after_on_disconnect)
  then have "t \<in> sockets_of (server c) k"
    by (simp add: sockets_of_unregisterSocket split: if_splits)
  with assms have "clientData (server c) t = k \<and> truthy k \<and> t \<in> opened c"
    by (simp add: keyed_by_login_def)
  then show "clientData (server (next_config c (Disconnect s))) t = k \<and> truthy k
      \<and> t \<in> opened (next_config c (Disconnect s))"
    by (simp add: next_config_def state_after_on_disconnect clientData_unregisterSocket)
qed

lemma keyed_by_login_next:
  assumes "keyed_by_login c" and "admissible c ev" and "login_truthy ev"
  shows "keyed_by_login (next_config c ev)"
proof (cases ev)
  case (Connection s)
  with assms(1,2) show ?thesis
    by (simp add: keyed_by_login_connection)
next
  case (Chat s p)
  with assms(1) show ?thesis
    by (simp add: keyed_by_login_unchanged state_after_on_chat)
next
  case (Register s p r)
  with assms(1) show ?thesis
    by (simp add: keyed_by_login_unchanged state_after_on_register)
next
  case (Disconnect s)
  with assms(1) show ?thesis
    by (simp add: keyed_by_login_disconnect)
next
  case (Auth s p r)
  show ?thesis
  proof (cases "\<exists>l pw. p = CredObj l pw \<and> r = Fulfilled")
    case False
    then have "state_after (step (server c) ev) = server c"
      using Auth by (auto simp: state_after_on_auth split: cred_payload.splits settlement.splits)
    with assms(1) Auth show ?thesis
      by (simp add: keyed_by_login_unchanged)
  next
    case True
    then obtain l pw where p: "p = CredObj l pw" "r = Fulfilled" by blast
    with Auth assms(2,3) have "s \<in> opened c" and "truthy l" by simp_all
    with assms(1) have "keyed_by_login (c\<lparr>server := authorized (server c) l s\<rparr>)"
      by (rule keyed_by_login_authorized)
    moreover have "next_config c ev = c\<lparr>server := authorized (server c) l s\<rparr>"
      using Auth p by (simp add: next_config_def state_after_on_auth)
    ultimately show ?thesis by simp
  qed
qed

lemma keyed_by_login_run:
  "keyed_by_login c \<Longrightarrow> truthy_logins evs \<Longrightarrow> run c evs = Some c' \<Longrightarrow> keyed_by_login c'"
proof (induction evs arbitrary: c)
  case Nil
  then show ?case by simp
next
  case (Cons ev evs)
  from Cons.prems(2) have t: "login_truthy ev" "truthy_logins evs"
    by (simp_all add: truthy_logins_def)
  from Cons.prems(3) have a: "admissible c ev" and r: "run (next_config c ev) evs = Some c'"
    by (auto split: if_splits)
  from Cons.prems(1) a t(1) have "keyed_by_login (next_config c ev)"
    by (rule keyed_by_login_next)
  then show ?case using t(2) r by (rule Cons.IH)
qed

lemma one_login_when_logins_truthy:
  assumes "run init_config evs = Some c" and "truthy_logins evs"
    and "t \<in> sockets_of (server c) k" and "t \<in> sockets_of (server c) k'"
  shows "k = k'"
proof -
  have key: "keyed_by_login c"
    using keyed_by_login_init assms(2,1) by (rule keyed_by_login_run)
  from key assms(3) have "clientData (server c) t = k"
    unfolding keyed_by_login_def by blast
  moreover from key assms(4) have "clientData (server c) t = k'"
    unfolding keyed_by_login_def by blast
  ultimately show ?thesis by simp
qed

lemma no_empty_set_in_runs:
  assumes "run init_config evs = Some c"
  shows "(Map_get (userSockets (server c)) k \<noteq> None) = (sockets_of (server c) k \<noteq> {})"
proof -
  have "sets_nonempty (server c)"
    using inv_reachable [OF assms] by (simp add: consistent_def)
  then show ?thesis
    by (simp add: sets_nonempty_sockets_of)
qed

text \<open>
  C3. The second half of the claim fails on the code: \<^verbatim>\<open>_unregisterSocket\<close> tests
  \<^verbatim>\<open>!login\<close>, which is also true of the empty string, so a socket that authenticated
  with the empty login and then with another one is left in both sets.
\<close>

theorem empty_login_stays_registered:
  "run init_config [Connection 1, auth_ok 1 empty_login, auth_ok 1 bob]
     = Some (exec init_config [Connection 1, auth_ok 1 empty_login, auth_ok 1 bob])
 \<and> userSockets (server (exec init_config [Connection 1, auth_ok 1 empty_login, auth_ok 1 bob]))
     = [(empty_login, [1]), (bob, [1])]
 \<and> logins_of (server (exec init_config [Connection 1, auth_ok 1 empty_login, auth_ok 1 bob])) 1
     = [empty_login, bob]"
proof -
  have "run init_config [Connection 1, auth_ok 1 empty_login, auth_ok 1 bob]
     = Some (exec init_config [Connection 1, auth_ok 1 empty_login, auth_ok 1 bob])"
    by (simp add: run_eval)
  moreover have "userSockets (server (exec init_config
        [Connection 1, auth_ok 1 empty_login, auth_ok 1 bob]))
     = [(empty_login, [1]), (bob, [1])]"
    by code_simp
  moreover have "logins_of (server (exec init_config
        [Connection 1, auth_ok 1 empty_login, auth_ok 1 bob])) 1
     = [empty_login, bob]"
    by code_simp
  ultimately show ?thesis by (intro conjI)
qed

text \<open>
  C9. \<^verbatim>\<open>_unregisterSocket\<close> does not remove a socket whose login is the empty string
  from the set it was registered in, neither when called directly nor on disconnect.
\<close>

theorem unregister_skips_empty_login:
  "run init_config [Connection 1, auth_ok 1 empty_login]
     = Some (exec init_config [Connection 1, auth_ok 1 empty_login])
 \<and> clientData (server (exec init_config [Connection 1, auth_ok 1 empty_login])) 1 = empty_login
 \<and> userSockets (server (exec init_config [Connection 1, auth_ok 1 empty_login]))
     = [(empty_login, [1])]
 \<and> userSockets (unregisterSocket (server (exec init_config
        [Connection 1, auth_ok 1 empty_login])) 1)
     = [(empty_login, [1])]
 \<and> userSockets (state_after (step (server (exec init_config
        [Connection 1, auth_ok 1 empty_login])) (Disconnect 1)))
     = [(empty_login, [1])]"
proof -
  have "run init_config [Connection 1, auth_ok 1 empty_login]
     = Some (exec init_config [Connection 1, auth_ok 1 empty_login])"
    by (simp add: run_eval)
  moreover have "clientData (server (exec init_config [Connection 1, auth_ok 1 empty_login])) 1
     = empty_login"
    by code_simp
  moreover have "userSockets (server (exec init_config [Connection 1, auth_ok 1 empty_login]))
     = [(empty_login, [1])]"
    by code_simp
  moreover have "userSockets (unregisterSocket (server (exec init_config
        [Connection 1, auth_ok 1 empty_login])) 1)
     = [(empty_login, [1])]"
    by code_simp
  moreover have "userSockets (state_after (step (server (exec init_config
        [Connection 1, auth_ok 1 empty_login])) (Disconnect 1)))
     = [(empty_login, [1])]"
    by code_simp
  ultimately show ?thesis by (intro conjI)
qed

end
